theory Spec2Isabelle
  imports Complex_Main "HOL-Library.Multiset" "HOL-Library.Sublist"
begin

section \<open>Python strings\<close>

text \<open>
  A Python \<^verbatim>\<open>str\<close> is a sequence of Unicode code points, and \<^verbatim>\<open>len\<close> counts code
  points. A string is therefore a list of code points (natural numbers), so that the
  line boundaries and the white space beyond ASCII (U+2028, U+3000, ...) are covered.
  \<open>lit\<close> turns an ASCII literal of the source into such a list.
\<close>

type_synonym codepoint = nat
type_synonym pystr = "codepoint list"

definition lit :: "string \<Rightarrow> pystr" where
  "lit s = map of_char s"

text \<open>
  \<^verbatim>\<open>str.isspace\<close> on one code point: the white space of CPython's Unicode database
  (U+0009..U+000D, U+001C..U+0020, U+0085, U+00A0, U+1680, U+2000..U+200A, U+2028,
  U+2029, U+202F, U+205F, U+3000).
\<close>

definition isspace :: "codepoint \<Rightarrow> bool" where
  "isspace c \<longleftrightarrow>
     (9 \<le> c \<and> c \<le> 13) \<or> (28 \<le> c \<and> c \<le> 32) \<or> c = 133 \<or> c = 160 \<or> c = 5760 \<or>
     (8192 \<le> c \<and> c \<le> 8202) \<or> c = 8232 \<or> c = 8233 \<or> c = 8239 \<or> c = 8287 \<or>
     c = 12288"

text \<open>
  The line boundaries of \<^verbatim>\<open>str.splitlines\<close>: U+000A..U+000D, U+001C..U+001E, U+0085,
  U+2028, U+2029.
\<close>

definition is_linebreak :: "codepoint \<Rightarrow> bool" where
  "is_linebreak c \<longleftrightarrow>
     (10 \<le> c \<and> c \<le> 13) \<or> (28 \<le> c \<and> c \<le> 30) \<or> c = 133 \<or> c = 8232 \<or> c = 8233"

text \<open>
  \<^verbatim>\<open>text.splitlines()\<close>: the text is cut at every line boundary, a carriage return
  followed by a line feed is one boundary, the boundaries are dropped, and there is no
  empty last line after a final boundary. \<open>cur\<close> is the line read so far.
\<close>

fun splitlines_from :: "pystr \<Rightarrow> pystr \<Rightarrow> pystr list" where
  "splitlines_from cur [] = (if cur = [] then [] else [cur])"
| "splitlines_from cur [c] = (if is_linebreak c then [cur] else [cur @ [c]])"
| "splitlines_from cur (c # d # cs) =
     (if c = 13 \<and> d = 10 then cur # splitlines_from [] cs
      else if is_linebreak c then cur # splitlines_from [] (d # cs)
      else splitlines_from (cur @ [c]) (d # cs))"

definition splitlines :: "pystr \<Rightarrow> pystr list" where
  "splitlines text = splitlines_from [] text"

text \<open>\<^verbatim>\<open>s.strip()\<close>: leading and trailing white space removed.\<close>

definition strip :: "pystr \<Rightarrow> pystr" where
  "strip s = rev (dropWhile isspace (rev (dropWhile isspace s)))"

text \<open>\<^verbatim>\<open>sep.join(parts)\<close>.\<close>

fun join :: "pystr \<Rightarrow> pystr list \<Rightarrow> pystr" where
  "join sep [] = []"
| "join sep [p] = p"
| "join sep (p # q # ps) = p @ sep @ join sep (q # ps)"

text \<open>\<^verbatim>\<open>str(n)\<close> for a non-negative integer: its decimal digits.\<close>

fun str_nat :: "nat \<Rightarrow> pystr" where
  "str_nat n = (if n < 10 then [48 + n] else str_nat (n div 10) @ [48 + n mod 10])"

declare str_nat.simps [simp del]

text \<open>
  \<^verbatim>\<open>s.split()\<close>: the maximal runs of non-white-space code points, in order. The source
  does not call it; it states what "the words of a text" are. \<open>cur\<close> is the word read
  so far.
\<close>

fun words_from :: "pystr \<Rightarrow> pystr \<Rightarrow> pystr list" where
  "words_from cur [] = (if cur = [] then [] else [cur])"
| "words_from cur (c # cs) =
     (if isspace c then (if cur = [] then words_from [] cs else cur # words_from [] cs)
      else words_from (cur @ [c]) cs)"

definition words :: "pystr \<Rightarrow> pystr list" where
  "words s = words_from [] s"

section \<open>The chunker\<close>

text \<open>
  \<^verbatim>\<open>chunk_text(text, max_chars=800)\<close> of day15/backend.py and day16/backend.py (the two
  bodies are the same). The loop over the lines carries the chunks emitted so far and the
  buffer \<open>buf\<close>; a line feed is code point 10.
\<close>

fun chunk_lines :: "int \<Rightarrow> pystr list \<Rightarrow> pystr list \<times> pystr \<Rightarrow> pystr list \<times> pystr" where
  "chunk_lines max_chars [] (chunks, buf) = (chunks, buf)"
| "chunk_lines max_chars (line # rest) (chunks, buf) =
     (if int (length buf) + int (length line) + 1 > max_chars
      then chunk_lines max_chars rest
             (if strip buf \<noteq> [] then chunks @ [strip buf] else chunks, line @ [10])
      else chunk_lines max_chars rest (chunks, buf @ line @ [10]))"

definition chunk_text :: "pystr \<Rightarrow> int \<Rightarrow> pystr list" where
  "chunk_text text max_chars =
     (case chunk_lines max_chars (splitlines text) ([], []) of
        (chunks, buf) \<Rightarrow> if strip buf \<noteq> [] then chunks @ [strip buf] else chunks)"

section \<open>Embeddings\<close>

text \<open>
  Floats are modelled as real numbers: sums, products, quotients and comparisons are the
  exact ones, and there is no rounding, infinity or NaN. What follows about ranking,
  truncation and filtering only uses the order of the scores.

  The hosted services are outside the program. The environment records whether
  \<^verbatim>\<open>OPENAI_API_KEY\<close> is set, what the embedding service answers for a text (its raw
  vector, or \<open>None\<close> when the call fails in any way) and what the chat service answers
  for a prompt. A service is a function of its input: it answers the same text in the
  same way every time it is asked.
\<close>

record env =
  api_key :: bool
  embeddings_create :: "pystr \<Rightarrow> real list option"
  chat_create :: "pystr \<Rightarrow> pystr option"

datatype error =
    ValueError       \<comment> \<open>\<^verbatim>\<open>get_client\<close>: the API key is missing\<close>
  | EmbeddingError   \<comment> \<open>day15 \<^verbatim>\<open>embed_text\<close>: \<^verbatim>\<open>Exception("Embedding error: ...")\<close>\<close>
  | LLMError         \<comment> \<open>day15: \<^verbatim>\<open>Exception("LLM error: ...")\<close>\<close>
  | ServiceError     \<comment> \<open>day16 \<^verbatim>\<open>embed_text\<close>: the client's exception, not wrapped\<close>
  | OSError          \<comment> \<open>\<^verbatim>\<open>open\<close> of a document fails\<close>

text \<open>
  The dictionaries of the source are records. A key's field carries a suffix, since the
  source uses the bare names (\<^verbatim>\<open>chunks\<close>, \<^verbatim>\<open>doc_count\<close>, \<^verbatim>\<open>embedding\<close>, ...) for its
  local variables as well: \<open>_c\<close> for a stored chunk, \<open>_i\<close> for the index.
\<close>

record chunk =
  id_c :: pystr
  doc_c :: pystr
  chunk_index_c :: nat
  text_c :: pystr
  embedding_c :: "real list"

record index =
  chunks_i :: "chunk list"
  doc_count_i :: "nat option"

text \<open>
  The state of one backend process: the file \<^verbatim>\<open>rag_index.json\<close> (\<open>None\<close> when it does
  not exist; when it exists it holds what \<^verbatim>\<open>save_index\<close> wrote, and \<^verbatim>\<open>json.load\<close> gives
  back what \<^verbatim>\<open>json.dump\<close> was given), the module's global \<^verbatim>\<open>RAG_INDEX\<close>, and the texts
  sent to the embedding service so far, oldest first. The last is not a variable of the
  source: it records the requests, so that "no request is made" can be said.
\<close>

record state =
  index_file :: "index option"
  RAG_INDEX :: index
  embed_calls :: "pystr list"

text \<open>\<^verbatim>\<open>load_index\<close> and \<^verbatim>\<open>save_index\<close> of day15/backend.py.\<close>

definition load_index :: "state \<Rightarrow> index \<times> state" where
  "load_index s =
     (case index_file s of
        Some data \<Rightarrow> (data, s\<lparr>RAG_INDEX := data\<rparr>)
      | None \<Rightarrow> (\<lparr>chunks_i = [], doc_count_i = None\<rparr>,
                 s\<lparr>RAG_INDEX := \<lparr>chunks_i = [], doc_count_i = None\<rparr>\<rparr>))"

definition save_index :: "index \<Rightarrow> state \<Rightarrow> state" where
  "save_index idx s = s\<lparr>index_file := Some idx\<rparr>"

text \<open>
  \<^verbatim>\<open>load_index\<close> of day16/backend.py: without a file the global is returned as it is.
\<close>

definition load_index16 :: "state \<Rightarrow> index \<times> state" where
  "load_index16 s =
     (case index_file s of
        Some data \<Rightarrow> (data, s\<lparr>RAG_INDEX := data\<rparr>)
      | None \<Rightarrow> (RAG_INDEX s, s))"

text \<open>
  The normalisation both \<^verbatim>\<open>embed_text\<close> bodies apply to the raw vector:
  \<^verbatim>\<open>norm = math.sqrt(sum(v * v for v in vec)) or 1.0\<close>, then \<^verbatim>\<open>[v / norm for v in vec]\<close>.
\<close>

definition l2_normalize :: "real list \<Rightarrow> real list" where
  "l2_normalize vec =
     (let n = sqrt (sum_list (map (\<lambda>v. v * v) vec));
          norm = (if n = 0 then 1 else n)
      in map (\<lambda>v. v / norm) vec)"

text \<open>
  \<^verbatim>\<open>embed_text\<close> of day15/backend.py: \<^verbatim>\<open>get_client()\<close> is called before the
  \<^verbatim>\<open>try\<close>, so a missing key raises \<^verbatim>\<open>ValueError\<close> and no request is sent; every failure
  of the request is raised again as "Embedding error".
\<close>

definition embed_text :: "env \<Rightarrow> pystr \<Rightarrow> state \<Rightarrow> (error + real list) \<times> state" where
  "embed_text e text s =
     (if \<not> api_key e then (Inl ValueError, s)
      else case embeddings_create e text of
             None \<Rightarrow> (Inl EmbeddingError, s\<lparr>embed_calls := embed_calls s @ [text]\<rparr>)
           | Some vec \<Rightarrow> (Inr (l2_normalize vec), s\<lparr>embed_calls := embed_calls s @ [text]\<rparr>))"

text \<open>\<^verbatim>\<open>embed_text\<close> of day16/backend.py: no \<^verbatim>\<open>try\<close>.\<close>

definition embed_text16 :: "env \<Rightarrow> pystr \<Rightarrow> state \<Rightarrow> (error + real list) \<times> state" where
  "embed_text16 e text s =
     (if \<not> api_key e then (Inl ValueError, s)
      else case embeddings_create e text of
             None \<Rightarrow> (Inl ServiceError, s\<lparr>embed_calls := embed_calls s @ [text]\<rparr>)
           | Some vec \<Rightarrow> (Inr (l2_normalize vec), s\<lparr>embed_calls := embed_calls s @ [text]\<rparr>))"

text \<open>\<^verbatim>\<open>cosine_sim(a, b)\<close>: \<^verbatim>\<open>zip\<close> stops at the shorter vector.\<close>

definition cosine_sim :: "real list \<Rightarrow> real list \<Rightarrow> real" where
  "cosine_sim a b = sum_list (map (\<lambda>(x, y). x * y) (zip a b))"

section \<open>The normalisation in binary64\<close>

text \<open>
  What the normalisation returns depends on the rounding of CPython's \<^verbatim>\<open>float\<close>
  (IEEE 754 binary64, round to nearest, ties to even), so its arithmetic is modelled a
  second time with that rounding. A float is the real number it stands for, an infinity
  or NaN; the two zeros are not told apart (nothing here depends on the sign of a zero).
\<close>

datatype fval = Fin real | PosInf | NegInf | NaN

text \<open>
  Rounding of an exact result to binary64: to the nearest multiple of the spacing at
  the result (2^(-1074) below 2^(-1022), otherwise 2 to the exponent of the result less 52),
  ties to the even multiple, and to an infinity from 2^(1024) on.
\<close>

definition round_half_even :: "real \<Rightarrow> int" where
  "round_half_even q =
     (let f = \<lfloor>q\<rfloor>; d = q - of_int f
      in if d < 1 / 2 then f else if 1 / 2 < d then f + 1 else if even f then f else f + 1)"

definition fl64 :: "real \<Rightarrow> fval" where
  "fl64 x =
     (let ulp = (if \<bar>x\<bar> < 1 / 2 ^ 1022 then 1 / 2 ^ 1074
                 else 2 powi (\<lfloor>log 2 \<bar>x\<bar>\<rfloor> - 52));
          y = of_int (round_half_even (x / ulp)) * ulp
      in if 2 ^ 1024 \<le> y then PosInf else if y \<le> - (2 ^ 1024) then NegInf else Fin y)"

text \<open>
  \<^verbatim>\<open>x + y\<close>, \<^verbatim>\<open>math.sqrt(x)\<close> (which raises \<^verbatim>\<open>ValueError\<close> below zero: \<open>None\<close>) and
  \<^verbatim>\<open>v / norm\<close> for a finite \<open>v\<close> (which raises \<^verbatim>\<open>ZeroDivisionError\<close> for a zero divisor:
  \<open>None\<close>).
\<close>

fun add64 :: "fval \<Rightarrow> fval \<Rightarrow> fval" where
  "add64 (Fin a) (Fin b) = fl64 (a + b)"
| "add64 NaN y = NaN"
| "add64 x NaN = NaN"
| "add64 PosInf NegInf = NaN"
| "add64 NegInf PosInf = NaN"
| "add64 PosInf y = PosInf"
| "add64 x PosInf = PosInf"
| "add64 NegInf y = NegInf"
| "add64 x NegInf = NegInf"

fun sqrt64 :: "fval \<Rightarrow> fval option" where
  "sqrt64 (Fin x) = (if x < 0 then None else Some (fl64 (sqrt x)))"
| "sqrt64 PosInf = Some PosInf"
| "sqrt64 NegInf = None"
| "sqrt64 NaN = Some NaN"

fun div64 :: "real \<Rightarrow> fval \<Rightarrow> fval option" where
  "div64 v (Fin b) = (if b = 0 then None else Some (fl64 (v / b)))"
| "div64 v PosInf = Some (Fin 0)"
| "div64 v NegInf = Some (Fin 0)"
| "div64 v NaN = Some NaN"

text \<open>
  The two lines of \<^verbatim>\<open>embed_text\<close> again, on a raw vector of finite floats:
  \<^verbatim>\<open>sum\<close> starts from 0 and adds the squares from left to right, and \<^verbatim>\<open>x or 1.0\<close> is
  1.0 exactly when \<open>x\<close> is zero. (From CPython 3.12 on \<^verbatim>\<open>sum\<close> compensates the rounding
  errors of its additions; that gives the same sum wherever the additions are exact.)
\<close>

definition l2_normalize64 :: "real list \<Rightarrow> fval list option" where
  "l2_normalize64 vec =
     (case sqrt64 (foldl add64 (Fin 0) (map (\<lambda>v. fl64 (v * v)) vec)) of
        None \<Rightarrow> None
      | Some n \<Rightarrow>
          (let norm = (if n = Fin 0 then Fin 1 else n)
           in those (map (\<lambda>v. div64 v norm) vec)))"

section \<open>Indexing\<close>

text \<open>
  \<^verbatim>\<open>fname.lower().endswith((".txt", ".md"))\<close>. \<open>lower\<close> maps the ASCII capitals and
  leaves every other code point alone; no other code point has a lower case that
  contains one of the code points of the two suffixes, so the test is the source's.
\<close>

definition lower :: "pystr \<Rightarrow> pystr" where
  "lower s = map (\<lambda>c. if 65 \<le> c \<and> c \<le> 90 then c + 32 else c) s"

definition endswith :: "pystr \<Rightarrow> pystr \<Rightarrow> bool" where
  "endswith s suf \<longleftrightarrow> length suf \<le> length s \<and> drop (length s - length suf) s = suf"

definition is_doc :: "pystr \<Rightarrow> bool" where
  "is_doc fname \<longleftrightarrow> endswith (lower fname) (lit ''.txt'') \<or> endswith (lower fname) (lit ''.md'')"

text \<open>
  What \<^verbatim>\<open>os.walk(DOCS_DIR)\<close> yields, as far as the loop reads it: for every directory
  its path below \<^verbatim>\<open>DOCS_DIR\<close> (empty for \<^verbatim>\<open>DOCS_DIR\<close> itself) and its files, each with
  the text \<^verbatim>\<open>f.read()\<close> returns (decoded with \<^verbatim>\<open>errors="ignore"\<close>), or \<open>None\<close> when
  \<^verbatim>\<open>open\<close> raises. \<open>rel_path\<close> is
  \<^verbatim>\<open>os.path.relpath(os.path.join(root, fname), DOCS_DIR)\<close>. The call
  \<^verbatim>\<open>os.makedirs(DOCS_DIR, exist_ok=True)\<close> before the walk only makes sure that the
  directory is there.
\<close>

type_synonym docs_dir = "(pystr \<times> (pystr \<times> pystr option) list) list"

definition rel_path :: "pystr \<Rightarrow> pystr \<Rightarrow> pystr" where
  "rel_path dir fname = (if dir = [] then fname else dir @ lit ''/'' @ fname)"

text \<open>
  The loops of \<^verbatim>\<open>reindex_endpoint\<close>, the same in both files but for the names of the
  variables. \<open>emb\<close> is the file's \<^verbatim>\<open>embed_text\<close>. An exception leaves the loops at once.
  Innermost: \<^verbatim>\<open>for i, ch_text in enumerate(chunk_text(text))\<close>.
\<close>

fun embed_chunks ::
  "(pystr \<Rightarrow> state \<Rightarrow> (error + real list) \<times> state) \<Rightarrow> pystr \<Rightarrow> (nat \<times> pystr) list \<Rightarrow>
   chunk list \<times> nat \<Rightarrow> state \<Rightarrow> (error + chunk list \<times> nat) \<times> state" where
  "embed_chunks emb rel [] (chunks, chunk_id) s = (Inr (chunks, chunk_id), s)"
| "embed_chunks emb rel ((i, ch_text) # rest) (chunks, chunk_id) s =
     (case emb ch_text s of
        (Inl e, s') \<Rightarrow> (Inl e, s')
      | (Inr embedding, s') \<Rightarrow>
          embed_chunks emb rel rest
            (chunks @ [\<lparr>id_c = lit ''chunk-'' @ str_nat chunk_id, doc_c = rel, chunk_index_c = i,
                        text_c = ch_text, embedding_c = embedding\<rparr>],
             chunk_id + 1) s')"

text \<open>\<^verbatim>\<open>for fname in files\<close>: the state of the loop is (chunks, doc_count, chunk_id).\<close>

fun index_files ::
  "(pystr \<Rightarrow> state \<Rightarrow> (error + real list) \<times> state) \<Rightarrow> pystr \<Rightarrow> (pystr \<times> pystr option) list \<Rightarrow>
   chunk list \<times> nat \<times> nat \<Rightarrow> state \<Rightarrow> (error + chunk list \<times> nat \<times> nat) \<times> state" where
  "index_files emb dir [] acc s = (Inr acc, s)"
| "index_files emb dir ((fname, content) # files) (chunks, doc_count, chunk_id) s =
     (if \<not> is_doc fname then index_files emb dir files (chunks, doc_count, chunk_id) s
      else case content of
             None \<Rightarrow> (Inl OSError, s)
           | Some text \<Rightarrow>
               (case embed_chunks emb (rel_path dir fname) (enumerate 0 (chunk_text text 800))
                       (chunks, chunk_id) s of
                  (Inl e, s') \<Rightarrow> (Inl e, s')
                | (Inr (chunks', chunk_id'), s') \<Rightarrow>
                    index_files emb dir files (chunks', doc_count + 1, chunk_id') s'))"

text \<open>\<^verbatim>\<open>for root, _, files in os.walk(DOCS_DIR)\<close>.\<close>

fun walk_docs ::
  "(pystr \<Rightarrow> state \<Rightarrow> (error + real list) \<times> state) \<Rightarrow> docs_dir \<Rightarrow>
   chunk list \<times> nat \<times> nat \<Rightarrow> state \<Rightarrow> (error + chunk list \<times> nat \<times> nat) \<times> state" where
  "walk_docs emb [] acc s = (Inr acc, s)"
| "walk_docs emb ((dir, files) # dirs) acc s =
     (case index_files emb dir files acc s of
        (Inl e, s') \<Rightarrow> (Inl e, s')
      | (Inr acc', s') \<Rightarrow> walk_docs emb dirs acc' s')"

text \<open>
  \<^verbatim>\<open>reindex_endpoint\<close> of day15/backend.py. The response's \<^verbatim>\<open>success\<close> is always true
  and is left out.
\<close>

record reindex_response =
  doc_count_out :: nat
  chunk_count_out :: nat
  message_out :: pystr

definition reindex_endpoint :: "env \<Rightarrow> docs_dir \<Rightarrow> state \<Rightarrow> (error + reindex_response) \<times> state" where
  "reindex_endpoint e docs s =
     (case walk_docs (embed_text e) docs ([], 0, 0) s of
        (Inl err, s') \<Rightarrow> (Inl err, s')
      | (Inr (chunks, doc_count, chunk_id), s') \<Rightarrow>
          (Inr \<lparr>doc_count_out = doc_count, chunk_count_out = length chunks,
                message_out = lit ''Indexed '' @ str_nat doc_count @ lit '' docs into '' @
                          str_nat (length chunks) @ lit '' chunks.''\<rparr>,
           snd (load_index (save_index \<lparr>chunks_i = chunks, doc_count_i = Some doc_count\<rparr> s'))))"

text \<open>\<^verbatim>\<open>reindex_endpoint\<close> of day16/backend.py; the response is (chunk_count, doc_count).\<close>

definition reindex_endpoint16 :: "env \<Rightarrow> docs_dir \<Rightarrow> state \<Rightarrow> (error + nat \<times> nat) \<times> state" where
  "reindex_endpoint16 e docs s =
     (case walk_docs (embed_text16 e) docs ([], 0, 0) s of
        (Inl err, s') \<Rightarrow> (Inl err, s')
      | (Inr (chunks, doc_count, cid), s') \<Rightarrow>
          (Inr (length chunks, doc_count),
           snd (load_index16 (save_index \<lparr>chunks_i = chunks, doc_count_i = Some doc_count\<rparr> s'))))"

text \<open>
  The files of the walk the loop does not skip, in the order of the walk, and the chunk
  texts of those of them that can be read.
\<close>

definition recognized_files :: "docs_dir \<Rightarrow> (pystr \<times> pystr option) list" where
  "recognized_files docs = filter (\<lambda>f. is_doc (fst f)) (concat (map snd docs))"

definition corpus_texts :: "docs_dir \<Rightarrow> pystr list" where
  "corpus_texts docs =
     concat (map (\<lambda>f. case snd f of None \<Rightarrow> [] | Some text \<Rightarrow> chunk_text text 800)
               (recognized_files docs))"

section \<open>Retrieval\<close>

text \<open>
  \<^verbatim>\<open>xs.sort(key=f, reverse=True)\<close>: CPython reverses the list, sorts it stably in
  ascending order of the key, and reverses the outcome, so that elements with equal keys
  keep their order. \<open>sort_key\<close> is a stable insertion sort.
\<close>

definition sort_reverse :: "('a \<Rightarrow> real) \<Rightarrow> 'a list \<Rightarrow> 'a list" where
  "sort_reverse f xs = rev (sort_key f (rev xs))"

text \<open>
  The slice \<^verbatim>\<open>xs[:k]\<close>: the first \<open>k\<close> elements, and for a negative \<open>k\<close> all but the last
  \<open>-k\<close>.
\<close>

definition slice_to :: "int \<Rightarrow> 'a list \<Rightarrow> 'a list" where
  "slice_to k xs = (if 0 \<le> k then take (nat k) xs else take (nat (int (length xs) + k)) xs)"

text \<open>
  The entries of \<^verbatim>\<open>scored\<close> (suffix \<open>_s\<close>), the chunks handed back (suffix \<open>_r\<close>) and
  the result of day15's \<^verbatim>\<open>retrieve_chunks\<close> (suffix \<open>_out\<close>).
\<close>

record scored_chunk =
  chunk_s :: chunk
  score_s :: real

record used_chunk =
  doc_r :: pystr
  chunk_index_r :: nat
  text_r :: pystr
  score_r :: real

record retrieval =
  chunks_out :: "used_chunk list"
  all_scores_out :: "real list"

text \<open>
  \<^verbatim>\<open>RAG_INDEX if RAG_INDEX["chunks"] else load_index()\<close>, the first line of
  \<^verbatim>\<open>retrieve_chunks\<close> (day15) and of \<^verbatim>\<open>retrieve\<close> (day16).
\<close>

definition get_index :: "state \<Rightarrow> index \<times> state" where
  "get_index s = (if chunks_i (RAG_INDEX s) \<noteq> [] then (RAG_INDEX s, s) else load_index s)"

definition get_index16 :: "state \<Rightarrow> index \<times> state" where
  "get_index16 s = (if chunks_i (RAG_INDEX s) \<noteq> [] then (RAG_INDEX s, s) else load_index16 s)"

text \<open>
  The loop that fills \<^verbatim>\<open>scored\<close>, and the dictionary handed back for one of its
  entries; the two files agree on both.
\<close>

definition score_chunks :: "real list \<Rightarrow> chunk list \<Rightarrow> scored_chunk list" where
  "score_chunks q_emb chs =
     map (\<lambda>ch. \<lparr>chunk_s = ch, score_s = cosine_sim q_emb (embedding_c ch)\<rparr>) chs"

definition used_of :: "scored_chunk \<Rightarrow> used_chunk" where
  "used_of x = \<lparr>doc_r = doc_c (chunk_s x), chunk_index_r = chunk_index_c (chunk_s x),
               text_r = text_c (chunk_s x), score_r = score_s x\<rparr>"

text \<open>\<^verbatim>\<open>retrieve_chunks(question, top_k, similarity_threshold)\<close> of day15/backend.py.\<close>

definition retrieve_chunks ::
  "env \<Rightarrow> pystr \<Rightarrow> int \<Rightarrow> real option \<Rightarrow> state \<Rightarrow> (error + retrieval) \<times> state" where
  "retrieve_chunks e question top_k similarity_threshold s =
     (case get_index s of
        (index, s1) \<Rightarrow>
          if chunks_i index = [] then (Inr \<lparr>chunks_out = [], all_scores_out = []\<rparr>, s1)
          else
            (case embed_text e question s1 of
               (Inl err, s2) \<Rightarrow> (Inl err, s2)
             | (Inr q_emb, s2) \<Rightarrow>
                 let scored = sort_reverse score_s (score_chunks q_emb (chunks_i index));
                     top_scored = slice_to top_k scored;
                     kept = (case similarity_threshold of
                               None \<Rightarrow> top_scored
                             | Some t \<Rightarrow> filter (\<lambda>x. score_s x \<ge> t) top_scored)
                 in (Inr \<lparr>chunks_out = map used_of kept, all_scores_out = map score_s scored\<rparr>,
                     s2)))"

text \<open>
  \<^verbatim>\<open>retrieve(question, top_k, threshold)\<close> of day16/backend.py; its result is the
  dictionary with the one key \<^verbatim>\<open>chunks\<close>, modelled as that list.
\<close>

definition retrieve ::
  "env \<Rightarrow> pystr \<Rightarrow> int \<Rightarrow> real option \<Rightarrow> state \<Rightarrow> (error + used_chunk list) \<times> state" where
  "retrieve e question top_k threshold s =
     (case get_index16 s of
        (index, s1) \<Rightarrow>
          if chunks_i index = [] then (Inr [], s1)
          else
            (case embed_text16 e question s1 of
               (Inl err, s2) \<Rightarrow> (Inl err, s2)
             | (Inr qemb, s2) \<Rightarrow>
                 let scored = sort_reverse score_s (score_chunks qemb (chunks_i index));
                     top_scored = slice_to top_k scored;
                     kept = (case threshold of
                               None \<Rightarrow> top_scored
                             | Some t \<Rightarrow> filter (\<lambda>x. score_s x \<ge> t) top_scored)
                 in (Inr (map used_of kept), s2)))"

text \<open>
  What "sorted by score in descending order, ties in insertion order" means: \<open>ys\<close>
  holds the elements of \<open>xs\<close>, no key is followed by a larger one, and the elements of
  any one key stand in \<open>ys\<close> as they stand in \<open>xs\<close>.
\<close>

definition stable_desc :: "('a \<Rightarrow> real) \<Rightarrow> 'a list \<Rightarrow> 'a list \<Rightarrow> bool" where
  "stable_desc f xs ys \<longleftrightarrow>
     mset ys = mset xs \<and> sorted_wrt (\<lambda>a b. f a \<ge> f b) ys \<and>
     (\<forall>k. filter (\<lambda>x. f x = k) ys = filter (\<lambda>x. f x = k) xs)"

section \<open>The prompt\<close>

text \<open>
  The prompt \<^verbatim>\<open>ask_llm_with_rag(question, chunks)\<close> of day15/backend.py builds, and the
  function itself: the chat service's answer, stripped.
\<close>

definition context_block :: "used_chunk list \<Rightarrow> pystr" where
  "context_block chunks =
     join (lit ''\<newline>\<newline>'')
       (map (\<lambda>c. lit ''['' @ doc_r c @ lit '' #'' @ str_nat (chunk_index_r c) @ lit ''] '' @
                  text_r c) chunks)"

definition rag_prompt :: "pystr \<Rightarrow> used_chunk list \<Rightarrow> pystr" where
  "rag_prompt question chunks =
     lit ''You are a helpful assistant using RAG.\<newline>'' @
     lit ''You are given CONTEXT extracted from local documents.\<newline>'' @
     lit ''Use it when relevant. If you don't see an answer in the context, say so.\<newline>\<newline>'' @
     lit ''CONTEXT:\<newline>'' @ context_block chunks @ lit ''\<newline>\<newline>'' @
     lit ''QUESTION: '' @ question"

definition ask_llm_with_rag :: "env \<Rightarrow> pystr \<Rightarrow> used_chunk list \<Rightarrow> error + pystr" where
  "ask_llm_with_rag e question chunks =
     (if \<not> api_key e then Inl ValueError
      else case chat_create e (rag_prompt question chunks) of
             None \<Rightarrow> Inl LLMError
           | Some content \<Rightarrow> Inr (strip content))"

text \<open>
  The two prompts \<^verbatim>\<open>ask_llm_with_citations(question, chunks)\<close> of day16/backend.py
  builds: \<^verbatim>\<open>prompt\<close>, and \<^verbatim>\<open>retry_prompt\<close> for an answer without citations. The calls
  of the chat service and the check of the answer are not modelled.
\<close>

definition context_block16 :: "used_chunk list \<Rightarrow> pystr" where
  "context_block16 chunks =
     join (lit ''\<newline>\<newline>'')
       (map (\<lambda>c. lit ''['' @ (doc_r c @ lit ''#'' @ str_nat (chunk_index_r c)) @ lit ''] '' @
                  text_r c) chunks)"

definition citations_prompt :: "pystr \<Rightarrow> used_chunk list \<Rightarrow> pystr" where
  "citations_prompt question chunks =
     lit ''You are a RAG assistant that MUST ALWAYS cite sources.\<newline>\<newline>'' @
     lit ''RULES:\<newline>'' @
     lit ''- Use citations in the format: [filename#chunk_index] (e.g., [agents_overview.txt#0])\<newline>'' @
     lit ''- Every important fact or claim must include a citation\<newline>'' @
     lit ''- At the end of your answer, include a CITATIONS section listing all sources used\<newline>\<newline>'' @
     lit ''CONTEXT (with chunk IDs):\<newline>'' @ context_block16 chunks @ lit ''\<newline>\<newline>'' @
     lit ''QUESTION: '' @ question @ lit ''\<newline>\<newline>'' @
     lit ''Provide a detailed answer with inline citations like [filename#chunk_index] throughout your response.\<newline>'' @
     lit ''End with a CITATIONS section listing all sources used.\<newline>''"

definition citations_retry_prompt :: "pystr \<Rightarrow> used_chunk list \<Rightarrow> pystr" where
  "citations_retry_prompt question chunks =
     lit ''You must include citations in your answer.\<newline>\<newline>'' @
     lit ''Available chunk IDs to cite:\<newline>'' @
     join (lit '', '') (map (\<lambda>c. doc_r c @ lit ''#'' @ str_nat (chunk_index_r c)) chunks) @
     lit ''\<newline>\<newline>'' @
     lit ''QUESTION: '' @ question @ lit ''\<newline>\<newline>'' @
     lit ''CONTEXT:\<newline>'' @ context_block16 chunks @ lit ''\<newline>\<newline>'' @
     lit ''Rewrite your answer and:\<newline>'' @
     lit ''1. Include inline citations like [filename#chunk_index] for each fact\<newline>'' @
     lit ''2. End with a CITATIONS section listing all sources used\<newline>''"

section \<open>Test data\<close>

text \<open>
  An environment with a key whose embedding service fails on the text \<^verbatim>\<open>bad\<close> and
  answers the vector (1, 0) for every other text; a process that has just started where
  no index file exists; and a process with an index of three chunks from two documents.
\<close>

definition test_env :: env where
  "test_env = \<lparr>api_key = True,
               embeddings_create = (\<lambda>t. if t = lit ''bad'' then None else Some [1, 0]),
               chat_create = (\<lambda>p. None)\<rparr>"

definition fresh_state :: state where
  "fresh_state = \<lparr>index_file = None, RAG_INDEX = \<lparr>chunks_i = [], doc_count_i = None\<rparr>,
                  embed_calls = []\<rparr>"

definition test_index :: index where
  "test_index =
     \<lparr>chunks_i =
        [\<lparr>id_c = lit ''chunk-0'', doc_c = lit ''a.txt'', chunk_index_c = 0,
          text_c = lit ''alpha'', embedding_c = [3 / 5, 4 / 5]\<rparr>,
         \<lparr>id_c = lit ''chunk-1'', doc_c = lit ''a.txt'', chunk_index_c = 1,
          text_c = lit ''beta'', embedding_c = [1, 0]\<rparr>,
         \<lparr>id_c = lit ''chunk-2'', doc_c = lit ''b.md'', chunk_index_c = 0,
          text_c = lit ''gamma'', embedding_c = [0, 1]\<rparr>],
      doc_count_i = Some 2\<rparr>"

definition test_state :: state where
  "test_state = \<lparr>index_file = Some test_index, RAG_INDEX = test_index, embed_calls = []\<rparr>"

section \<open>Properties of the string operations\<close>

lemma isspace_newline: "isspace 10" by (simp add: isspace_def)

lemma linebreak_isspace: "is_linebreak c \<Longrightarrow> isspace c"
  by (auto simp: is_linebreak_def isspace_def)

lemma words_from_space_append:
  "isspace c \<Longrightarrow> words_from cur (xs @ c # ys) = words_from cur xs @ words_from [] ys"
  by (induction xs arbitrary: cur) auto

lemma words_from_all_space:
  "\<forall>c\<in>set ys. isspace c \<Longrightarrow> words_from [] ys = []"
  by (induction ys) auto

lemma words_from_append_spaces:
  "\<forall>c\<in>set ys. isspace c \<Longrightarrow> words_from cur (xs @ ys) = words_from cur xs"
proof (cases ys)
  case Nil then show ?thesis by simp
next
  case (Cons c cs)
  assume a: "\<forall>c\<in>set ys. isspace c"
  with Cons have "isspace c" "\<forall>c\<in>set cs. isspace c" by auto
  then show ?thesis using Cons
    by (simp add: words_from_space_append words_from_all_space)
qed

lemma words_dropWhile: "words (dropWhile isspace s) = words s"
  by (induction s) (auto simp: words_def)

lemma words_strip: "words (strip s) = words s"
proof -
  let ?t = "dropWhile isspace s"
  have "?t = rev (dropWhile isspace (rev ?t)) @ rev (takeWhile isspace (rev ?t))"
    by (metis rev_append rev_rev_ident takeWhile_dropWhile_id)
  moreover have "\<forall>c\<in>set (rev (takeWhile isspace (rev ?t))). isspace c"
    by (auto dest: set_takeWhileD)
  ultimately have "words ?t = words (strip s)"
    unfolding words_def strip_def by (metis words_from_append_spaces)
  then show ?thesis by (simp add: words_dropWhile)
qed

lemma words_append_newline:
  "words (a @ 10 # b) = words a @ words b"
  by (simp add: words_def words_from_space_append isspace_newline)

lemma words_snoc_newline: "words (a @ [10]) = words a"
  using words_append_newline [of a "[]"] by (simp add: words_def)

lemma strip_Nil_words: "strip s = [] \<Longrightarrow> words s = []"
  using words_strip [of s] by (simp add: words_def)

lemma words_splitlines_from:
  "concat (map words (splitlines_from cur rest)) = words (cur @ rest)"
proof (induction cur rest rule: splitlines_from.induct)
  case (1 cur)
  then show ?case by (simp add: words_def)
next
  case (2 cur c)
  then show ?case
    using words_from_append_spaces [of "[c]" "[]" cur]
    by (auto simp: words_def dest: linebreak_isspace)
next
  case (3 cur c d cs)
  show ?case
  proof (cases "c = 13 \<and> d = 10")
    case True
    have "words (cur @ 13 # 10 # cs) = words cur @ words (10 # cs)"
      unfolding words_def by (rule words_from_space_append) (simp add: isspace_def)
    also have "words (10 # cs) = words cs"
      by (simp add: words_def isspace_newline)
    finally show ?thesis using True 3 by simp
  next
    case False
    note nf = this
    show ?thesis
    proof (cases "is_linebreak c")
      case True
      then have "words (cur @ c # d # cs) = words cur @ words (d # cs)"
        unfolding words_def by (intro words_from_space_append linebreak_isspace)
      then show ?thesis using True nf 3 by auto
    next
      case False
      then show ?thesis using nf 3 by auto
    qed
  qed
qed

lemma words_splitlines: "concat (map words (splitlines text)) = words text"
  by (simp add: splitlines_def words_splitlines_from)

lemma chunk_lines_words:
  "buf = [] \<or> last buf = 10 \<Longrightarrow> chunk_lines m ls (chunks, buf) = (chunks', buf') \<Longrightarrow>
   concat (map words chunks') @ words buf' =
   concat (map words chunks) @ words buf @ concat (map words ls)"
proof (induction ls arbitrary: chunks buf)
  case Nil
  then show ?case by simp
next
  case (Cons l ls)
  show ?case
  proof (cases "int (length buf) + int (length l) + 1 > m")
    case True
    let ?c = "if strip buf \<noteq> [] then chunks @ [strip buf] else chunks"
    from True Cons.prems have "chunk_lines m ls (?c, l @ [10]) = (chunks', buf')" by simp
    from Cons.IH [OF _ this]
    have "concat (map words chunks') @ words buf' =
      concat (map words ?c) @ words (l @ [10]) @ concat (map words ls)" by simp
    moreover have "concat (map words ?c) = concat (map words chunks) @ words buf"
      by (simp add: words_strip strip_Nil_words)
    ultimately show ?thesis by (simp add: words_snoc_newline)
  next
    case False
    with Cons.prems have "chunk_lines m ls (chunks, buf @ l @ [10]) = (chunks', buf')" by simp
    from Cons.IH [OF _ this]
    have "concat (map words chunks') @ words buf' =
      concat (map words chunks) @ words (buf @ l @ [10]) @ concat (map words ls)" by simp
    moreover have "words (buf @ l @ [10]) = words buf @ words l"
    proof (cases "buf = []")
      case True then show ?thesis by (simp add: words_snoc_newline) (simp add: words_def)
    next
      case False
      with Cons.prems(1) obtain b where b: "buf = b @ [10]"
        by (metis append_butlast_last_id)
      show ?thesis unfolding b
        using words_append_newline [of b "l @ [10]"] by (simp add: words_snoc_newline)
    qed
    ultimately show ?thesis by simp
  qed
qed

lemma words_join_space: "words (join [32] cs) = concat (map words cs)"
proof (induction "[32::nat]" cs rule: join.induct)
  case 1 show ?case by (simp add: words_def)
next
  case (2 p) show ?case by simp
next
  case (3 p q ps)
  have "words (p @ 32 # join [32] (q # ps)) = words p @ words (join [32] (q # ps))"
    unfolding words_def by (rule words_from_space_append) (simp add: isspace_def)
  then show ?case using 3 by simp
qed

lemma length_strip_le: "length (strip s) \<le> length s"
proof -
  have "length (strip s) \<le> length (dropWhile isspace s)"
    unfolding strip_def using length_dropWhile_le [of isspace "rev (dropWhile isspace s)"] by simp
  also have "\<dots> \<le> length s" by (rule length_dropWhile_le)
  finally show ?thesis .
qed

lemma strip_snoc_newline: "strip (l @ [10]) = strip l"
proof (cases "\<forall>c\<in>set l. isspace c")
  case True
  then have d: "dropWhile isspace l = []" by simp
  have "isspace 10" by (simp add: isspace_def)
  with True have e: "dropWhile isspace (l @ [10]) = []"
    by simp
  show ?thesis unfolding strip_def d e ..
next
  case False
  then obtain x where "x \<in> set l" "\<not> isspace x" by blast
  then have "dropWhile isspace (l @ [10]) = dropWhile isspace l @ [10]"
    by (rule dropWhile_append1)
  then show ?thesis by (simp add: strip_def isspace_def)
qed

section \<open>Properties of the chunker\<close>

lemma within_strip:
  assumes "buf = [] \<or> int (length buf) \<le> m \<or> (\<exists>l\<in>L. buf = l @ [10])"
    and "strip buf \<noteq> []"
  shows "int (length (strip buf)) \<le> m \<or> (\<exists>l\<in>L. m < int (length l) \<and> strip buf = strip l)"
proof (cases "int (length (strip buf)) \<le> m")
  case True then show ?thesis by simp
next
  case False
  with length_strip_le [of buf] have big: "\<not> int (length buf) \<le> m" by linarith
  from assms(2) have "buf \<noteq> []" by (auto simp: strip_def)
  with big assms(1) obtain l where l: "l \<in> L" "buf = l @ [10]" by blast
  then have s: "strip buf = strip l" by (simp add: strip_snoc_newline)
  from False s length_strip_le [of l] have "m < int (length l)" by simp
  with l s show ?thesis by blast
qed

lemma chunk_lines_bound:
  assumes "chunk_lines m ls (chunks, buf) = (chunks', buf')"
    and "buf = [] \<or> int (length buf) \<le> m \<or> (\<exists>l\<in>L. buf = l @ [10])"
    and "\<forall>c\<in>set chunks. int (length c) \<le> m \<or> (\<exists>l\<in>L. m < int (length l) \<and> c = strip l)"
    and "set ls \<subseteq> L"
  shows "(\<forall>c\<in>set chunks'. int (length c) \<le> m \<or> (\<exists>l\<in>L. m < int (length l) \<and> c = strip l)) \<and>
         (buf' = [] \<or> int (length buf') \<le> m \<or> (\<exists>l\<in>L. buf' = l @ [10]))"
  using assms
proof (induction ls arbitrary: chunks buf)
  case Nil
  then show ?case by simp
next
  case (Cons l ls)
  show ?case
  proof (cases "int (length buf) + int (length l) + 1 > m")
    case True
    let ?c = "if strip buf \<noteq> [] then chunks @ [strip buf] else chunks"
    from True Cons.prems(1) have run: "chunk_lines m ls (?c, l @ [10]) = (chunks', buf')" by simp
    have b: "l @ [10] = [] \<or> int (length (l @ [10])) \<le> m \<or> (\<exists>l'\<in>L. l @ [10] = l' @ [10])"
      using Cons.prems(4) by auto
    have c: "\<forall>c\<in>set ?c. int (length c) \<le> m \<or> (\<exists>l\<in>L. m < int (length l) \<and> c = strip l)"
      using Cons.prems(3) within_strip [OF Cons.prems(2)] by auto
    from Cons.IH [OF run b c] Cons.prems(4) show ?thesis by simp
  next
    case False
    with Cons.prems(1) have run: "chunk_lines m ls (chunks, buf @ l @ [10]) = (chunks', buf')"
      by simp
    have b: "buf @ l @ [10] = [] \<or> int (length (buf @ l @ [10])) \<le> m \<or>
        (\<exists>l'\<in>L. buf @ l @ [10] = l' @ [10])"
      using False by simp
    from Cons.IH [OF run b Cons.prems(3)] Cons.prems(4) show ?thesis by simp
  qed
qed

lemma chunk_lines_mono:
  "chunk_lines m ls (chunks, buf) = (chunks', buf') \<Longrightarrow> set chunks \<subseteq> set chunks'"
proof (induction ls arbitrary: chunks buf)
  case Nil then show ?case by simp
next
  case (Cons l ls)
  show ?case
  proof (cases "int (length buf) + int (length l) + 1 > m")
    case True
    with Cons.prems have "chunk_lines m ls
       (if strip buf \<noteq> [] then chunks @ [strip buf] else chunks, l @ [10]) = (chunks', buf')"
      by simp
    from Cons.IH [OF this] show ?thesis by (auto split: if_splits)
  next
    case False
    with Cons.prems have "chunk_lines m ls (chunks, buf @ l @ [10]) = (chunks', buf')" by simp
    from Cons.IH [OF this] show ?thesis .
  qed
qed

lemma chunk_lines_overlong:
  assumes "chunk_lines m ls (chunks, buf) = (chunks', buf')"
    and "m < int (length l)" and "strip l \<noteq> []"
    and "buf = l @ [10] \<or> l \<in> set ls"
  shows "strip l \<in> set chunks' \<or> buf' = l @ [10]"
  using assms
proof (induction ls arbitrary: chunks buf)
  case Nil
  then show ?case by simp
next
  case (Cons l0 ls)
  show ?case
  proof (cases "int (length buf) + int (length l0) + 1 > m")
    case True
    let ?c = "if strip buf \<noteq> [] then chunks @ [strip buf] else chunks"
    from True Cons.prems(1) have run: "chunk_lines m ls (?c, l0 @ [10]) = (chunks', buf')" by simp
    show ?thesis
    proof (cases "buf = l @ [10]")
      case True
      then have "strip l \<in> set ?c" using Cons.prems(3) by (simp add: strip_snoc_newline)
      with chunk_lines_mono [OF run] show ?thesis by blast
    next
      case False
      with Cons.prems(4) have "l0 @ [10] = l @ [10] \<or> l \<in> set ls" by auto
      from Cons.IH [OF run Cons.prems(2,3) this] show ?thesis .
    qed
  next
    case False
    with Cons.prems(1) have run: "chunk_lines m ls (chunks, buf @ l0 @ [10]) = (chunks', buf')"
      by simp
    from False Cons.prems(2) have "buf \<noteq> l @ [10]" "l0 \<noteq> l" by auto
    with Cons.prems(4) have "l \<in> set ls" by auto
    then have "buf @ l0 @ [10] = l @ [10] \<or> l \<in> set ls" by simp
    from Cons.IH [OF run Cons.prems(2,3) this] show ?thesis .
  qed
qed

text \<open>
  C3 (as amended). Every chunk has at most \<open>max_chars\<close> code points, unless it is one
  line of the input that is longer than \<open>max_chars\<close>, stripped of the white space around
  it; and every such line that is not blank is a chunk of its own (stripped, not cut).
  This holds for every \<open>max_chars\<close>, positive or not.
\<close>

theorem chunk_text_max_size:
  "(\<forall>c\<in>set (chunk_text text max_chars).
      int (length c) \<le> max_chars \<or>
      (\<exists>l\<in>set (splitlines text). max_chars < int (length l) \<and> c = strip l)) \<and>
   (\<forall>l\<in>set (splitlines text).
      max_chars < int (length l) \<and> strip l \<noteq> [] \<longrightarrow> strip l \<in> set (chunk_text text max_chars))"
proof -
  obtain chunks buf where r: "chunk_lines max_chars (splitlines text) ([], []) = (chunks, buf)"
    by (cases "chunk_lines max_chars (splitlines text) ([], [])")
  have ct: "chunk_text text max_chars = (if strip buf \<noteq> [] then chunks @ [strip buf] else chunks)"
    by (simp add: chunk_text_def r)
  have inv: "(\<forall>c\<in>set chunks. int (length c) \<le> max_chars \<or>
        (\<exists>l\<in>set (splitlines text). max_chars < int (length l) \<and> c = strip l)) \<and>
      (buf = [] \<or> int (length buf) \<le> max_chars \<or> (\<exists>l\<in>set (splitlines text). buf = l @ [10]))"
    by (rule chunk_lines_bound [OF r]) simp_all
  show ?thesis
  proof (intro conjI ballI impI)
    fix c assume c: "c \<in> set (chunk_text text max_chars)"
    show "int (length c) \<le> max_chars \<or>
      (\<exists>l\<in>set (splitlines text). max_chars < int (length l) \<and> c = strip l)"
    proof (cases "c \<in> set chunks")
      case True with inv show ?thesis by blast
    next
      case False
      with c have "c = strip buf" "strip buf \<noteq> []" by (auto simp: ct split: if_splits)
      with within_strip [of buf max_chars "set (splitlines text)"] inv show ?thesis by blast
    qed
  next
    fix l assume l: "l \<in> set (splitlines text)" "max_chars < int (length l) \<and> strip l \<noteq> []"
    then have "strip l \<in> set chunks \<or> buf = l @ [10]"
      using chunk_lines_overlong [OF r, of l] by simp
    then show "strip l \<in> set (chunk_text text max_chars)"
      using l by (auto simp: ct strip_snoc_newline)
  qed
qed

theorem chunk_text_max_size_witness:
  "chunk_text (lit ''ab\<newline>  efghijk \<newline>k'') 6 = [lit ''ab'', lit ''efghijk'', lit ''k''] \<and>
   lit ''  efghijk '' \<in> set (splitlines (lit ''ab\<newline>  efghijk \<newline>k'')) \<and>
   6 < int (length (lit ''  efghijk '')) \<and>
   strip (lit ''  efghijk '') \<in> set (chunk_text (lit ''ab\<newline>  efghijk \<newline>k'') 6)"
  using chunk_text_max_size [of "lit ''ab\<newline>  efghijk \<newline>k''" 6]
  by (simp add: chunk_text_def splitlines_def lit_def strip_def isspace_def is_linebreak_def)

text \<open>
  The claim as it was stated lets the over-long line through unchanged. It is stripped:
  the one line of the text below has six code points, \<open>max_chars\<close> is 3, and the chunk is
  the line without its two leading blanks. A line of blanks only gives no chunk at all.
\<close>

theorem chunk_text_unchanged_counterexample:
  "chunk_text (lit ''  aaaa'') 3 = [lit ''aaaa''] \<and>
   splitlines (lit ''  aaaa'') = [lit ''  aaaa''] \<and>
   \<not> (\<forall>c\<in>set (chunk_text (lit ''  aaaa'') 3).
         int (length c) \<le> 3 \<or> c \<in> set (splitlines (lit ''  aaaa''))) \<and>
   chunk_text (lit ''     '') 3 = []"
  by (simp add: chunk_text_def splitlines_def lit_def strip_def isspace_def is_linebreak_def)

text \<open>
  C4 (as amended: the chunks are joined with white space between them). The words of
  the chunks, taken in order, are the words of the text: nothing is lost, added or
  reordered, whatever \<open>max_chars\<close> is. Said of one string: the chunks joined by a blank
  (code point 32) have the words of the text. The blank stands for the white space
  \<open>strip\<close> took away where two chunks meet; the line boundaries inside a chunk have
  all become line feeds.
\<close>

theorem chunk_text_words:
  "concat (map words (chunk_text text max_chars)) = words text \<and>
   words (join [32] (chunk_text text max_chars)) = words text"
proof -
  obtain chunks buf where r: "chunk_lines max_chars (splitlines text) ([], []) = (chunks, buf)"
    by (cases "chunk_lines max_chars (splitlines text) ([], [])")
  from chunk_lines_words [OF _ r]
  have "concat (map words chunks) @ words buf = words text"
    by (simp add: words_splitlines) (simp add: words_def)
  moreover have "concat (map words (chunk_text text max_chars)) = concat (map words chunks) @ words buf"
    by (simp add: chunk_text_def r words_strip strip_Nil_words)
  ultimately show ?thesis by (simp add: words_join_space)
qed

theorem chunk_text_words_witness:
  "chunk_text (lit ''ab  cd\<newline>\<newline> ef\<newline>'') 7 = [lit ''ab  cd'', lit ''ef''] \<and>
   concat (map words (chunk_text (lit ''ab  cd\<newline>\<newline> ef\<newline>'') 7)) = [lit ''ab'', lit ''cd'', lit ''ef''] \<and>
   words (lit ''ab  cd\<newline>\<newline> ef\<newline>'') = [lit ''ab'', lit ''cd'', lit ''ef'']"
  using chunk_text_words [of "lit ''ab  cd\<newline>\<newline> ef\<newline>''" 7]
  by (simp add: chunk_text_def splitlines_def lit_def strip_def isspace_def is_linebreak_def
      words_def)

text \<open>
  The claim as it was stated concatenates the chunks. With nothing between them the last
  word of a chunk and the first word of the next run together: the text below has the
  words \<^verbatim>\<open>ab\<close> and \<^verbatim>\<open>cd\<close>, its chunks for \<open>max_chars = 3\<close> are those two words, and
  their concatenation is the one word \<^verbatim>\<open>abcd\<close>.
\<close>

theorem chunk_text_concat_counterexample:
  "chunk_text (lit ''ab\<newline>cd'') 3 = [lit ''ab'', lit ''cd''] \<and>
   words (concat (chunk_text (lit ''ab\<newline>cd'') 3)) = [lit ''abcd''] \<and>
   words (lit ''ab\<newline>cd'') = [lit ''ab'', lit ''cd''] \<and>
   words (concat (chunk_text (lit ''ab\<newline>cd'') 3)) \<noteq> words (lit ''ab\<newline>cd'')"
  by (simp add: chunk_text_def splitlines_def lit_def strip_def isspace_def is_linebreak_def
      words_def)

section \<open>Properties of the rebuild loops\<close>

lemma embed_text_frame:
  "embed_text e t s = (r, s') \<Longrightarrow> index_file s' = index_file s \<and> RAG_INDEX s' = RAG_INDEX s"
  by (auto simp: embed_text_def split: if_splits option.splits)

lemma embed_text16_frame:
  "embed_text16 e t s = (r, s') \<Longrightarrow> index_file s' = index_file s \<and> RAG_INDEX s' = RAG_INDEX s"
  by (auto simp: embed_text16_def split: if_splits option.splits)

lemma embed_chunks_frame:
  assumes fr: "\<And>t s r s'. emb t s = (r, s') \<Longrightarrow>
      index_file s' = index_file s \<and> RAG_INDEX s' = RAG_INDEX s"
  shows "embed_chunks emb rel ics (cs, n) s = (r, s') \<Longrightarrow>
      index_file s' = index_file s \<and> RAG_INDEX s' = RAG_INDEX s"
proof (induction ics arbitrary: cs n s)
  case Nil
  then show ?case by simp
next
  case (Cons ic ics)
  obtain i t where ic: "ic = (i, t)" by (cases ic)
  obtain r1 s1 where e: "emb t s = (r1, s1)" by (cases "emb t s")
  note f = fr [OF e]
  show ?case
  proof (cases r1)
    case (Inl err)
    with e ic Cons.prems f show ?thesis by simp
  next
    case (Inr v)
    with e ic Cons.prems have "embed_chunks emb rel ics
     (cs @ [\<lparr>id_c = lit ''chunk-'' @ str_nat n, doc_c = rel, chunk_index_c = i, text_c = t,
             embedding_c = v\<rparr>], n + 1) s1 = (r, s')" by simp
    from Cons.IH [OF this] f show ?thesis by simp
  qed
qed

text \<open>What the innermost loop returns when it returns: one chunk per text, in order.\<close>

lemma embed_chunks_result:
  "embed_chunks emb rel ics (cs, n) s = (Inr (cs', n'), s') \<Longrightarrow>
     \<exists>new. cs' = cs @ new \<and> n' = n + length ics \<and> map text_c new = map snd ics \<and>
       (\<forall>c\<in>set new. doc_c c = rel \<and>
          (\<exists>s0 s1. emb (text_c c) s0 = (Inr (embedding_c c), s1)))"
proof (induction ics arbitrary: cs n s)
  case Nil
  then show ?case by simp
next
  case (Cons ic ics)
  obtain i t where ic: "ic = (i, t)" by (cases ic)
  obtain r1 s1 where e: "emb t s = (r1, s1)" by (cases "emb t s")
  show ?case
  proof (cases r1)
    case (Inl err)
    with e ic Cons.prems show ?thesis by simp
  next
    case (Inr v)
    let ?c = "\<lparr>id_c = lit ''chunk-'' @ str_nat n, doc_c = rel, chunk_index_c = i, text_c = t,
             embedding_c = v\<rparr>"
    from Inr e ic Cons.prems have run: "embed_chunks emb rel ics (cs @ [?c], n + 1) s1 =
       (Inr (cs', n'), s')" by simp
    from Cons.IH [OF run] obtain new where new: "cs' = (cs @ [?c]) @ new"
      "n' = n + 1 + length ics" "map text_c new = map snd ics"
      "\<forall>c\<in>set new. doc_c c = rel \<and> (\<exists>s0 s1. emb (text_c c) s0 = (Inr (embedding_c c), s1))"
      by auto
    from e Inr have "\<exists>s0 s1. emb (text_c ?c) s0 = (Inr (embedding_c ?c), s1)" by auto
    with new ic show ?thesis by (intro exI [of _ "?c # new"]) simp
  qed
qed

lemma embed_chunks_error:
  "embed_chunks emb rel ics (cs, n) s = (Inl err, s') \<Longrightarrow>
     \<exists>t\<in>set (map snd ics). \<exists>s0 s1. emb t s0 = (Inl err, s1)"
proof (induction ics arbitrary: cs n s)
  case Nil
  then show ?case by simp
next
  case (Cons ic ics)
  obtain i t where ic: "ic = (i, t)" by (cases ic)
  obtain r1 s1 where e: "emb t s = (r1, s1)" by (cases "emb t s")
  show ?case
  proof (cases r1)
    case (Inl err')
    with e ic Cons.prems have "emb t s = (Inl err, s1)" by simp
    with ic show ?thesis by auto
  next
    case (Inr v)
    with e ic Cons.prems have "embed_chunks emb rel ics
     (cs @ [\<lparr>id_c = lit ''chunk-'' @ str_nat n, doc_c = rel, chunk_index_c = i, text_c = t,
             embedding_c = v\<rparr>], n + 1) s1 = (Inl err, s')" by simp
    from Cons.IH [OF this] show ?thesis by auto
  qed
qed

lemma recognized_files_Cons:
  "recognized_files ((dir, files) # dirs) =
     recognized_files [(dir, files)] @ recognized_files dirs"
  by (simp add: recognized_files_def)

lemma recognized_files_skip:
  "\<not> is_doc fname \<Longrightarrow>
     recognized_files [(dir, (fname, content) # files)] = recognized_files [(dir, files)]"
  by (simp add: recognized_files_def)

lemma recognized_files_keep:
  "is_doc fname \<Longrightarrow>
     recognized_files [(dir, (fname, content) # files)] =
     (fname, content) # recognized_files [(dir, files)]"
  by (simp add: recognized_files_def)

lemma corpus_texts_Cons:
  "corpus_texts ((dir, files) # dirs) = corpus_texts [(dir, files)] @ corpus_texts dirs"
  by (simp add: corpus_texts_def recognized_files_def)

lemma corpus_texts_skip:
  "\<not> is_doc fname \<Longrightarrow>
     corpus_texts [(dir, (fname, content) # files)] = corpus_texts [(dir, files)]"
  by (simp add: corpus_texts_def recognized_files_def)

lemma corpus_texts_keep:
  "is_doc fname \<Longrightarrow>
     corpus_texts [(dir, (fname, Some body) # files)] =
     chunk_text body 800 @ corpus_texts [(dir, files)]"
  by (simp add: corpus_texts_def recognized_files_def)

text \<open>The loop over the files of one directory.\<close>

lemma index_files_frame:
  assumes fr: "\<And>t s r s'. emb t s = (r, s') \<Longrightarrow>
      index_file s' = index_file s \<and> RAG_INDEX s' = RAG_INDEX s"
  shows "index_files emb dir files (cs, d, n) s = (r, s') \<Longrightarrow>
      index_file s' = index_file s \<and> RAG_INDEX s' = RAG_INDEX s"
proof (induction files arbitrary: cs d n s)
  case Nil
  then show ?case by simp
next
  case (Cons f files)
  obtain fname content where f: "f = (fname, content)" by (cases f)
  show ?case
  proof (cases "is_doc fname")
    case False
    with f Cons.prems have "index_files emb dir files (cs, d, n) s = (r, s')" by simp
    from Cons.IH [OF this] show ?thesis .
  next
    case True
    note doc = this
    show ?thesis
    proof (cases content)
      case None
      with doc f Cons.prems show ?thesis by simp
    next
      case (Some body)
      obtain r1 s1 where e: "embed_chunks emb (rel_path dir fname)
          (enumerate 0 (chunk_text body 800)) (cs, n) s = (r1, s1)"
        by (cases "embed_chunks emb (rel_path dir fname)
          (enumerate 0 (chunk_text body 800)) (cs, n) s")
      note f1 = embed_chunks_frame [of emb, OF fr e]
      show ?thesis
      proof (cases r1)
        case (Inl err)
        with e doc f Some Cons.prems f1 show ?thesis by simp
      next
        case (Inr p)
        obtain cs1 n1 where p: "p = (cs1, n1)" by (cases p)
        with Inr e doc f Some Cons.prems
        have "index_files emb dir files (cs1, d + 1, n1) s1 = (r, s')" by simp
        from Cons.IH [OF this] f1 show ?thesis by simp
      qed
    qed
  qed
qed

lemma index_files_result:
  "index_files emb dir files (cs, d, n) s = (Inr (cs', d', n'), s') \<Longrightarrow>
     \<exists>new. cs' = cs @ new \<and> d' = d + length (recognized_files [(dir, files)]) \<and>
       map text_c new = corpus_texts [(dir, files)] \<and>
       (\<forall>c\<in>set new. \<exists>s0 s1. emb (text_c c) s0 = (Inr (embedding_c c), s1))"
proof (induction files arbitrary: cs d n s)
  case Nil
  then show ?case by (simp add: recognized_files_def corpus_texts_def)
next
  case (Cons f files)
  obtain fname content where f: "f = (fname, content)" by (cases f)
  show ?case
  proof (cases "is_doc fname")
    case False
    with f Cons.prems have "index_files emb dir files (cs, d, n) s = (Inr (cs', d', n'), s')"
      by simp
    from Cons.IH [OF this] False f show ?thesis
      by (simp add: recognized_files_skip corpus_texts_skip)
  next
    case True
    note doc = this
    show ?thesis
    proof (cases content)
      case None
      with doc f Cons.prems show ?thesis by simp
    next
      case (Some body)
      obtain r1 s1 where e: "embed_chunks emb (rel_path dir fname)
          (enumerate 0 (chunk_text body 800)) (cs, n) s = (r1, s1)"
        by (cases "embed_chunks emb (rel_path dir fname)
          (enumerate 0 (chunk_text body 800)) (cs, n) s")
      show ?thesis
      proof (cases r1)
        case (Inl err)
        with e doc f Some Cons.prems show ?thesis by simp
      next
        case (Inr p)
        obtain cs1 n1 where p: "p = (cs1, n1)" by (cases p)
        from embed_chunks_result [OF e [unfolded Inr p]]
        obtain new1 where new1: "cs1 = cs @ new1" "map text_c new1 = chunk_text body 800"
          "\<forall>c\<in>set new1. \<exists>s0 s1. emb (text_c c) s0 = (Inr (embedding_c c), s1)"
          by auto
        from p Inr e doc f Some Cons.prems
        have "index_files emb dir files (cs1, d + 1, n1) s1 = (Inr (cs', d', n'), s')" by simp
        from Cons.IH [OF this] obtain new2 where new2: "cs' = cs1 @ new2"
          "d' = d + 1 + length (recognized_files [(dir, files)])"
          "map text_c new2 = corpus_texts [(dir, files)]"
          "\<forall>c\<in>set new2. \<exists>s0 s1. emb (text_c c) s0 = (Inr (embedding_c c), s1)"
          by auto
        from new1 new2 doc f Some show ?thesis
          by (intro exI [of _ "new1 @ new2"])
            (auto simp: recognized_files_keep corpus_texts_keep)
      qed
    qed
  qed
qed

lemma index_files_error:
  "index_files emb dir files (cs, d, n) s = (Inl err, s') \<Longrightarrow>
     (err = OSError \<and> (\<exists>f\<in>set (recognized_files [(dir, files)]). snd f = None)) \<or>
     (\<exists>t\<in>set (corpus_texts [(dir, files)]). \<exists>s0 s1. emb t s0 = (Inl err, s1))"
proof (induction files arbitrary: cs d n s)
  case Nil
  then show ?case by simp
next
  case (Cons f files)
  obtain fname content where f: "f = (fname, content)" by (cases f)
  show ?case
  proof (cases "is_doc fname")
    case False
    with f Cons.prems have "index_files emb dir files (cs, d, n) s = (Inl err, s')" by simp
    from Cons.IH [OF this] False f show ?thesis
      by (simp add: recognized_files_skip corpus_texts_skip)
  next
    case True
    note doc = this
    show ?thesis
    proof (cases content)
      case None
      with doc f Cons.prems show ?thesis by (simp add: recognized_files_keep)
    next
      case (Some body)
      obtain r1 s1 where e: "embed_chunks emb (rel_path dir fname)
          (enumerate 0 (chunk_text body 800)) (cs, n) s = (r1, s1)"
        by (cases "embed_chunks emb (rel_path dir fname)
          (enumerate 0 (chunk_text body 800)) (cs, n) s")
      show ?thesis
      proof (cases r1)
        case (Inl err1)
        with e doc f Some Cons.prems have "err1 = err" by simp
        with embed_chunks_error [OF e [unfolded Inl]] doc f Some show ?thesis
          by (auto simp: corpus_texts_keep)
      next
        case (Inr p)
        obtain cs1 n1 where p: "p = (cs1, n1)" by (cases p)
        from p Inr e doc f Some Cons.prems
        have "index_files emb dir files (cs1, d + 1, n1) s1 = (Inl err, s')" by simp
        from Cons.IH [OF this] doc f Some show ?thesis
          by (auto simp: recognized_files_keep corpus_texts_keep)
      qed
    qed
  qed
qed

lemma walk_docs_frame:
  assumes fr: "\<And>t s r s'. emb t s = (r, s') \<Longrightarrow>
      index_file s' = index_file s \<and> RAG_INDEX s' = RAG_INDEX s"
  shows "walk_docs emb docs (cs, d, n) s = (r, s') \<Longrightarrow>
      index_file s' = index_file s \<and> RAG_INDEX s' = RAG_INDEX s"
proof (induction docs arbitrary: cs d n s)
  case Nil
  then show ?case by simp
next
  case (Cons df docs)
  obtain dir files where df: "df = (dir, files)" by (cases df)
  obtain r1 s1 where e: "index_files emb dir files (cs, d, n) s = (r1, s1)"
    by (cases "index_files emb dir files (cs, d, n) s")
  note f1 = index_files_frame [of emb, OF fr e]
  show ?case
  proof (cases r1)
    case (Inl err)
    with e df Cons.prems f1 show ?thesis by simp
  next
    case (Inr p)
    obtain cs1 d1 n1 where p: "p = (cs1, d1, n1)" by (cases p)
    with Inr e df Cons.prems have "walk_docs emb docs (cs1, d1, n1) s1 = (r, s')" by simp
    from Cons.IH [OF this] f1 show ?thesis by simp
  qed
qed

lemma walk_docs_result:
  "walk_docs emb docs (cs, d, n) s = (Inr (cs', d', n'), s') \<Longrightarrow>
     \<exists>new. cs' = cs @ new \<and> d' = d + length (recognized_files docs) \<and>
       map text_c new = corpus_texts docs \<and>
       (\<forall>c\<in>set new. \<exists>s0 s1. emb (text_c c) s0 = (Inr (embedding_c c), s1))"
proof (induction docs arbitrary: cs d n s)
  case Nil
  then show ?case by (simp add: recognized_files_def corpus_texts_def)
next
  case (Cons df docs)
  obtain dir files where df: "df = (dir, files)" by (cases df)
  obtain r1 s1 where e: "index_files emb dir files (cs, d, n) s = (r1, s1)"
    by (cases "index_files emb dir files (cs, d, n) s")
  show ?case
  proof (cases r1)
    case (Inl err)
    with e df Cons.prems show ?thesis by simp
  next
    case (Inr p)
    obtain cs1 d1 n1 where p: "p = (cs1, d1, n1)" by (cases p)
    from index_files_result [OF e [unfolded Inr p]]
    obtain new1 where new1: "cs1 = cs @ new1"
      "d1 = d + length (recognized_files [(dir, files)])"
      "map text_c new1 = corpus_texts [(dir, files)]"
      "\<forall>c\<in>set new1. \<exists>s0 s1. emb (text_c c) s0 = (Inr (embedding_c c), s1)"
      by auto
    from p Inr e df Cons.prems
    have "walk_docs emb docs (cs1, d1, n1) s1 = (Inr (cs', d', n'), s')" by simp
    from Cons.IH [OF this] obtain new2 where new2: "cs' = cs1 @ new2"
      "d' = d1 + length (recognized_files docs)"
      "map text_c new2 = corpus_texts docs"
      "\<forall>c\<in>set new2. \<exists>s0 s1. emb (text_c c) s0 = (Inr (embedding_c c), s1)"
      by auto
    from new1 new2 show ?thesis
      unfolding df recognized_files_Cons [of dir files docs] corpus_texts_Cons [of dir files docs]
      by (intro exI [of _ "new1 @ new2"]) auto
  qed
qed

lemma walk_docs_error:
  "walk_docs emb docs (cs, d, n) s = (Inl err, s') \<Longrightarrow>
     (err = OSError \<and> (\<exists>f\<in>set (recognized_files docs). snd f = None)) \<or>
     (\<exists>t\<in>set (corpus_texts docs). \<exists>s0 s1. emb t s0 = (Inl err, s1))"
proof (induction docs arbitrary: cs d n s)
  case Nil
  then show ?case by simp
next
  case (Cons df docs)
  obtain dir files where df: "df = (dir, files)" by (cases df)
  obtain r1 s1 where e: "index_files emb dir files (cs, d, n) s = (r1, s1)"
    by (cases "index_files emb dir files (cs, d, n) s")
  show ?case
  proof (cases r1)
    case (Inl err1)
    with e df Cons.prems have "err1 = err" by simp
    with index_files_error [OF e [unfolded Inl]] show ?thesis
      unfolding df recognized_files_Cons [of dir files docs] corpus_texts_Cons [of dir files docs]
      by auto
  next
    case (Inr p)
    obtain cs1 d1 n1 where p: "p = (cs1, d1, n1)" by (cases p)
    from p Inr e df Cons.prems
    have "walk_docs emb docs (cs1, d1, n1) s1 = (Inl err, s')" by simp
    from Cons.IH [OF this] show ?thesis
      unfolding df recognized_files_Cons [of dir files docs] corpus_texts_Cons [of dir files docs]
      by auto
  qed
qed

text \<open>A walk that meets no file at all: nothing is embedded and nothing changes.\<close>

lemma walk_docs_no_files:
  "concat (map snd docs) = [] \<Longrightarrow> walk_docs emb docs acc s = (Inr acc, s)"
proof (induction docs)
  case Nil
  then show ?case by simp
next
  case (Cons df docs)
  then show ?case by (cases df) simp
qed

lemma embed_text_result:
  "embed_text e t s0 = (Inr v, s1) \<Longrightarrow>
     api_key e \<and> (\<exists>vec. embeddings_create e t = Some vec \<and> v = l2_normalize vec)"
  by (auto simp: embed_text_def split: if_splits option.splits)

lemma embed_text_error:
  "embed_text e t s0 = (Inl err, s1) \<Longrightarrow> err = (if api_key e then EmbeddingError else ValueError)"
  by (auto simp: embed_text_def split: if_splits option.splits)

text \<open>The two outcomes of day15's rebuild.\<close>

lemma reindex_endpoint_Inl:
  "reindex_endpoint e docs s = (Inl err, s') \<longleftrightarrow>
     walk_docs (embed_text e) docs ([], 0, 0) s = (Inl err, s')"
  by (auto simp: reindex_endpoint_def split: prod.splits sum.splits)

lemma reindex_endpoint_Inr:
  "reindex_endpoint e docs s = (Inr r, s') \<Longrightarrow>
     \<exists>cs d n s1. walk_docs (embed_text e) docs ([], 0, 0) s = (Inr (cs, d, n), s1) \<and>
       doc_count_out r = d \<and> chunk_count_out r = length cs \<and>
       s' = s1\<lparr>index_file := Some \<lparr>chunks_i = cs, doc_count_i = Some d\<rparr>,
              RAG_INDEX := \<lparr>chunks_i = cs, doc_count_i = Some d\<rparr>\<rparr>"
  by (auto simp: reindex_endpoint_def load_index_def save_index_def split: prod.splits sum.splits)

lemma reindex_endpoint16_Inr:
  "reindex_endpoint16 e docs s = (Inr r, s') \<Longrightarrow>
     \<exists>cs d n s1. walk_docs (embed_text16 e) docs ([], 0, 0) s = (Inr (cs, d, n), s1) \<and>
       r = (length cs, d) \<and>
       s' = s1\<lparr>index_file := Some \<lparr>chunks_i = cs, doc_count_i = Some d\<rparr>,
              RAG_INDEX := \<lparr>chunks_i = cs, doc_count_i = Some d\<rparr>\<rparr>"
  by (auto simp: reindex_endpoint16_def load_index16_def save_index_def
      split: prod.splits sum.splits)

section \<open>Properties of the retrievers\<close>

lemma sort_reverse_stable_desc: "stable_desc f xs (sort_reverse f xs)"
proof -
  have "sorted_wrt (\<lambda>a b. f a \<ge> f b) (rev (sort_key f (rev xs)))"
    using sorted_sort_key [of f "rev xs"] by (simp add: sorted_wrt_rev sorted_map)
  moreover have "filter (\<lambda>x. f x = k) (rev (sort_key f (rev xs))) = filter (\<lambda>x. f x = k) xs" for k
    using sort_key_stable [of f k "rev xs"] by (simp add: rev_filter [symmetric])
  ultimately show ?thesis by (simp add: stable_desc_def sort_reverse_def)
qed

lemma stable_desc_unique:
  assumes "stable_desc f xs ys"
  shows "ys = sort_reverse f xs"
proof -
  from assms have m: "mset (rev ys) = mset (rev xs)" by (simp add: stable_desc_def)
  from assms have "sorted_wrt (\<lambda>a b. f a \<ge> f b) ys" by (simp add: stable_desc_def)
  then have s: "sorted (map f (rev ys))" by (simp add: sorted_map sorted_wrt_rev)
  have "filter (\<lambda>x. f k = f x) (rev ys) = filter (\<lambda>x. f k = f x) (rev xs)" for k
  proof -
    from assms have "filter (\<lambda>x. f x = f k) ys = filter (\<lambda>x. f x = f k) xs"
      by (simp add: stable_desc_def)
    then have "filter (\<lambda>x. f k = f x) ys = filter (\<lambda>x. f k = f x) xs"
      by (simp add: eq_commute)
    then show ?thesis by (simp add: rev_filter [symmetric])
  qed
  with m s have "sort_key f (rev xs) = rev ys" by (intro properties_for_sort_key) auto
  then show ?thesis by (simp add: sort_reverse_def)
qed

lemma length_sort_reverse: "length (sort_reverse f xs) = length xs"
  by (simp add: sort_reverse_def)

lemma slice_to_nonneg: "0 \<le> k \<Longrightarrow> slice_to k xs = take (nat k) xs"
  by (simp add: slice_to_def)

lemma score_used_of: "score_r (used_of x) = score_s x"
  by (simp add: used_of_def)

lemma filter_used_of:
  "filter (\<lambda>c. t \<le> score_r c) (map used_of xs) = map used_of (filter (\<lambda>x. t \<le> score_s x) xs)"
  by (induction xs) (simp_all add: score_used_of)

text \<open>The index the retrievers work on.\<close>

lemma get_index16_chunks: "chunks_i (fst (get_index16 s)) = chunks_i (fst (get_index s))"
  by (simp add: get_index16_def get_index_def load_index16_def load_index_def
      split: option.splits)

lemma get_index_frame:
  "get_index s = (index, s1) \<Longrightarrow> embed_calls s1 = embed_calls s \<and> index_file s1 = index_file s"
  by (auto simp: get_index_def load_index_def split: if_splits option.splits)

lemma get_index_again:
  "get_index s = (index, s1) \<Longrightarrow> index_file s2 = index_file s1 \<Longrightarrow>
   RAG_INDEX s2 = RAG_INDEX s1 \<Longrightarrow> fst (get_index s2) = index"
  by (auto simp: get_index_def load_index_def split: if_splits option.splits)

lemma embed_text_fst: "fst (embed_text e t s) = fst (embed_text e t s')"
  by (simp add: embed_text_def split: option.splits)

text \<open>The three ways \<^verbatim>\<open>retrieve_chunks\<close> ends.\<close>

lemma retrieve_chunks_empty:
  "get_index s = (index, s1) \<Longrightarrow> chunks_i index = [] \<Longrightarrow>
   retrieve_chunks e q k thr s = (Inr \<lparr>chunks_out = [], all_scores_out = []\<rparr>, s1)"
  by (simp add: retrieve_chunks_def)

lemma retrieve_chunks_Inl:
  "get_index s = (index, s1) \<Longrightarrow> chunks_i index \<noteq> [] \<Longrightarrow>
   embed_text e q s1 = (Inl err, s2) \<Longrightarrow> retrieve_chunks e q k thr s = (Inl err, s2)"
  by (simp add: retrieve_chunks_def)

lemma retrieve_chunks_Inr:
  "get_index s = (index, s1) \<Longrightarrow> chunks_i index \<noteq> [] \<Longrightarrow>
   embed_text e q s1 = (Inr q_emb, s2) \<Longrightarrow>
   retrieve_chunks e q k thr s =
     (Inr \<lparr>chunks_out = map used_of
             ((case thr of None \<Rightarrow> (\<lambda>xs. xs) | Some t \<Rightarrow> filter (\<lambda>x. t \<le> score_s x))
                (slice_to k (sort_reverse score_s (score_chunks q_emb (chunks_i index))))),
           all_scores_out = map score_s (sort_reverse score_s (score_chunks q_emb (chunks_i index)))\<rparr>,
      s2)"
  by (simp add: retrieve_chunks_def Let_def split: option.splits)

text \<open>day16's \<^verbatim>\<open>retrieve\<close> in terms of day15's \<^verbatim>\<open>retrieve_chunks\<close>.\<close>

lemma embed_text16_eq:
  "fst (embed_text16 e t s) =
     (case fst (embed_text e t s') of Inl err \<Rightarrow> Inl (if err = EmbeddingError then ServiceError else err)
      | Inr v \<Rightarrow> Inr v)"
  by (simp add: embed_text16_def embed_text_def split: option.splits)

lemma retrieve_eq:
  "fst (retrieve e q k thr s) =
     (case fst (retrieve_chunks e q k thr s) of
        Inl err \<Rightarrow> Inl (if err = EmbeddingError then ServiceError else err)
      | Inr r \<Rightarrow> Inr (chunks_out r))"
proof -
  obtain i16 s16 where g16: "get_index16 s = (i16, s16)" by (cases "get_index16 s")
  obtain i15 s15 where g15: "get_index s = (i15, s15)" by (cases "get_index s")
  from get_index16_chunks [of s] g16 g15 have ch: "chunks_i i16 = chunks_i i15" by simp
  show ?thesis
  proof (cases "chunks_i i15 = []")
    case True
    with ch g15 g16 show ?thesis by (simp add: retrieve_def retrieve_chunks_def)
  next
    case False
    obtain r16 t16 where e16: "embed_text16 e q s16 = (r16, t16)" by (cases "embed_text16 e q s16")
    obtain r15 t15 where e15: "embed_text e q s15 = (r15, t15)" by (cases "embed_text e q s15")
    from embed_text16_eq [of e q s16 s15] e16 e15
    have r: "r16 = (case r15 of Inl err \<Rightarrow> Inl (if err = EmbeddingError then ServiceError else err)
      | Inr v \<Rightarrow> Inr v)" by simp
    show ?thesis
      using False ch g15 g16 e15 e16 r
      by (cases r15) (simp_all add: retrieve_def retrieve_chunks_def Let_def)
  qed
qed

lemma retrieve_chunks_threshold:
  assumes "fst (retrieve_chunks e q k None s) = Inr u"
  shows "\<exists>f. fst (retrieve_chunks e q k (Some t) s) = Inr f \<and>
           chunks_out f = filter (\<lambda>c. t \<le> score_r c) (chunks_out u)"
proof -
  obtain index s1 where g: "get_index s = (index, s1)" by (cases "get_index s")
  show ?thesis
  proof (cases "chunks_i index = []")
    case True
    from retrieve_chunks_empty [OF g True] assms show ?thesis by auto
  next
    case False
    obtain r1 s2 where em: "embed_text e q s1 = (r1, s2)" by (cases "embed_text e q s1")
    show ?thesis
    proof (cases r1)
      case (Inl err)
      from retrieve_chunks_Inl [OF g False em [unfolded Inl]] assms show ?thesis by simp
    next
      case (Inr q_emb)
      from retrieve_chunks_Inr [OF g False em [unfolded Inr], of k None]
        retrieve_chunks_Inr [OF g False em [unfolded Inr], of k "Some t"] assms
      show ?thesis by (auto simp: filter_used_of)
    qed
  qed
qed

lemma retrieve_chunks_idem:
  "fst (retrieve_chunks e q k thr (snd (retrieve_chunks e q k thr s))) =
   fst (retrieve_chunks e q k thr s)"
proof -
  obtain index s1 where g: "get_index s = (index, s1)" by (cases "get_index s")
  show ?thesis
  proof (cases "chunks_i index = []")
    case True
    note r = retrieve_chunks_empty [OF g True, of e q k thr]
    obtain s1' where g': "get_index s1 = (index, s1')"
      using get_index_again [OF g, of s1] by (cases "get_index s1") auto
    from retrieve_chunks_empty [OF g' True, of e q k thr] r show ?thesis by simp
  next
    case False
    obtain r1 s2 where em: "embed_text e q s1 = (r1, s2)" by (cases "embed_text e q s1")
    from embed_text_frame [OF em] get_index_again [OF g, of s2]
    obtain s2' where g': "get_index s2 = (index, s2')" by (cases "get_index s2") auto
    obtain r1' s3 where em': "embed_text e q s2' = (r1', s3)" by (cases "embed_text e q s2'")
    from embed_text_fst [of e q s1 s2'] em em' have r1': "r1' = r1" by simp
    show ?thesis
    proof (cases r1)
      case (Inl err)
      from retrieve_chunks_Inl [OF g False em [unfolded Inl], of k thr]
        retrieve_chunks_Inl [OF g' False em' [unfolded r1' Inl], of k thr]
      show ?thesis by simp
    next
      case (Inr q_emb)
      from retrieve_chunks_Inr [OF g False em [unfolded Inr], of k thr]
        retrieve_chunks_Inr [OF g' False em' [unfolded r1' Inr], of k thr]
      show ?thesis by simp
    qed
  qed
qed

lemma get_index16_again:
  "get_index16 s = (index, s1) \<Longrightarrow> index_file s2 = index_file s1 \<Longrightarrow>
   RAG_INDEX s2 = RAG_INDEX s1 \<Longrightarrow> fst (get_index16 s2) = index"
  by (auto simp: get_index16_def load_index16_def split: if_splits option.splits)

lemma embed_text16_fst: "fst (embed_text16 e t s) = fst (embed_text16 e t s')"
  by (simp add: embed_text16_def split: option.splits)

lemma retrieve_idem:
  "fst (retrieve e q k thr (snd (retrieve e q k thr s))) = fst (retrieve e q k thr s)"
proof -
  obtain index s1 where g: "get_index16 s = (index, s1)" by (cases "get_index16 s")
  show ?thesis
  proof (cases "chunks_i index = []")
    case True
    obtain s1' where g': "get_index16 s1 = (index, s1')"
      using get_index16_again [OF g, of s1] by (cases "get_index16 s1") auto
    from g g' True show ?thesis by (simp add: retrieve_def)
  next
    case False
    obtain r1 s2 where em: "embed_text16 e q s1 = (r1, s2)" by (cases "embed_text16 e q s1")
    from embed_text16_frame [OF em] get_index16_again [OF g, of s2]
    obtain s2' where g': "get_index16 s2 = (index, s2')" by (cases "get_index16 s2") auto
    obtain r1' s3 where em': "embed_text16 e q s2' = (r1', s3)"
      by (cases "embed_text16 e q s2'")
    from embed_text16_fst [of e q s1 s2'] em em' have r1': "r1' = r1" by simp
    from g False em have "snd (retrieve e q k thr s) = s2"
      by (cases r1) (simp_all add: retrieve_def Let_def)
    with g g' False em em' r1' show ?thesis
      by (cases r1) (simp_all add: retrieve_def Let_def)
  qed
qed

text \<open>The definitions a concrete run unfolds.\<close>

lemmas string_eval = lit_def strip_def isspace_def is_linebreak_def splitlines_def chunk_text_def
lemmas retrieval_eval = retrieve_chunks_def retrieve_def get_index_def get_index16_def
  load_index_def load_index16_def embed_text_def embed_text16_def l2_normalize_def
  cosine_sim_def score_chunks_def sort_reverse_def slice_to_def used_of_def
lemmas test_data = test_env_def fresh_state_def test_index_def test_state_def

lemmas index_eval = reindex_endpoint_def reindex_endpoint16_def save_index_def is_doc_def
  lower_def endswith_def rel_path_def enumerate_eq_zip recognized_files_def corpus_texts_def

section \<open>Retrieval: threshold, top-K, the two retrievers\<close>

text \<open>
  C1. From one state, with one question and one \<open>top_k\<close> (of either sign): when the
  retrieval without threshold returns \<open>u\<close>, the retrieval with the threshold \<open>t\<close>
  returns too, and its chunks are those of \<open>u\<close> that score at least \<open>t\<close>, in the
  order of \<open>u\<close>. So they are a sublist of the top-K, none scores below \<open>t\<close>, no chunk
  outside the top-K comes back whatever its score, and nothing comes from nothing. The
  first half is day15's \<^verbatim>\<open>retrieve_chunks\<close>, the second day16's \<^verbatim>\<open>retrieve\<close>.
\<close>

theorem threshold_after_top_k:
  "(\<forall>u. fst (retrieve_chunks e q k None s) = Inr u \<longrightarrow>
      (\<exists>f. fst (retrieve_chunks e q k (Some t) s) = Inr f \<and>
           chunks_out f = filter (\<lambda>c. t \<le> score_r c) (chunks_out u) \<and>
           subseq (chunks_out f) (chunks_out u) \<and>
           (\<forall>c\<in>set (chunks_out f). c \<in> set (chunks_out u) \<and> t \<le> score_r c) \<and>
           (chunks_out u = [] \<longrightarrow> chunks_out f = []))) \<and>
   (\<forall>u. fst (retrieve e q k None s) = Inr u \<longrightarrow>
      (\<exists>f. fst (retrieve e q k (Some t) s) = Inr f \<and>
           f = filter (\<lambda>c. t \<le> score_r c) u \<and> subseq f u \<and>
           (\<forall>c\<in>set f. c \<in> set u \<and> t \<le> score_r c) \<and> (u = [] \<longrightarrow> f = [])))"
proof (intro conjI allI impI)
  fix u assume u: "fst (retrieve_chunks e q k None s) = Inr u"
  from retrieve_chunks_threshold [OF u, of t] obtain f where
    f: "fst (retrieve_chunks e q k (Some t) s) = Inr f"
       "chunks_out f = filter (\<lambda>c. t \<le> score_r c) (chunks_out u)" by blast
  then show "\<exists>f. fst (retrieve_chunks e q k (Some t) s) = Inr f \<and>
           chunks_out f = filter (\<lambda>c. t \<le> score_r c) (chunks_out u) \<and>
           subseq (chunks_out f) (chunks_out u) \<and>
           (\<forall>c\<in>set (chunks_out f). c \<in> set (chunks_out u) \<and> t \<le> score_r c) \<and>
           (chunks_out u = [] \<longrightarrow> chunks_out f = [])"
    by auto
next
  fix u assume u: "fst (retrieve e q k None s) = Inr u"
  then obtain u15 where u15: "fst (retrieve_chunks e q k None s) = Inr u15" "u = chunks_out u15"
    by (auto simp: retrieve_eq [of e q k None s] split: sum.splits)
  from retrieve_chunks_threshold [OF u15(1), of t] obtain f where
    f: "fst (retrieve_chunks e q k (Some t) s) = Inr f"
       "chunks_out f = filter (\<lambda>c. t \<le> score_r c) (chunks_out u15)" by blast
  then have "fst (retrieve e q k (Some t) s) = Inr (filter (\<lambda>c. t \<le> score_r c) u)"
    using u15 by (simp add: retrieve_eq [of e q k "Some t" s])
  then show "\<exists>f. fst (retrieve e q k (Some t) s) = Inr f \<and>
           f = filter (\<lambda>c. t \<le> score_r c) u \<and> subseq f u \<and>
           (\<forall>c\<in>set f. c \<in> set u \<and> t \<le> score_r c) \<and> (u = [] \<longrightarrow> f = [])"
    by auto
qed

text \<open>
  With \<open>top_k = 1\<close> and the threshold 1/2 the chunk \<^verbatim>\<open>alpha\<close>, which scores 3/5, stays
  outside: it is not among the top 1.
\<close>

theorem threshold_after_top_k_witness:
  "fst (retrieve_chunks test_env (lit ''q'') 1 None test_state) =
     Inr \<lparr>chunks_out = [\<lparr>doc_r = lit ''a.txt'', chunk_index_r = 1, text_r = lit ''beta'',
                          score_r = 1\<rparr>],
          all_scores_out = [1, 3 / 5, 0]\<rparr> \<and>
   fst (retrieve_chunks test_env (lit ''q'') 1 (Some (1 / 2)) test_state) =
     Inr \<lparr>chunks_out = [\<lparr>doc_r = lit ''a.txt'', chunk_index_r = 1, text_r = lit ''beta'',
                          score_r = 1\<rparr>],
          all_scores_out = [1, 3 / 5, 0]\<rparr> \<and>
   fst (retrieve_chunks test_env (lit ''q'') 2 (Some (4 / 5)) test_state) =
     Inr \<lparr>chunks_out = [\<lparr>doc_r = lit ''a.txt'', chunk_index_r = 1, text_r = lit ''beta'',
                          score_r = 1\<rparr>],
          all_scores_out = [1, 3 / 5, 0]\<rparr> \<and>
   fst (retrieve test_env (lit ''q'') 1 (Some (1 / 2)) test_state) =
     Inr [\<lparr>doc_r = lit ''a.txt'', chunk_index_r = 1, text_r = lit ''beta'', score_r = 1\<rparr>]"
  using threshold_after_top_k [of test_env "lit ''q''" 1 test_state "1 / 2"]
  by (simp add: retrieval_eval test_data lit_def)

text \<open>
  C2 (as amended: for \<open>top_k \<ge> 0\<close>). On an index that has chunks, when the question
  can be embedded, both retrievers return the first \<open>min top_k N\<close> entries of the one list
  \<open>ranked\<close> that holds the scored chunks in descending order of score with ties in
  insertion order. So at most \<open>top_k\<close> chunks come back, all \<open>N\<close> when \<open>top_k\<close> is not
  smaller, and a second run from the state the first one leaves returns the same list.
  Both retrievers work on the same chunks (\<open>get_index16_chunks\<close>).
\<close>

theorem retrieve_top_k:
  assumes "0 \<le> top_k" and "chunks_i (fst (get_index s)) \<noteq> []"
  shows
    "(\<forall>q_emb. fst (embed_text e question s) = Inr q_emb \<longrightarrow>
       (\<exists>ranked.
          stable_desc score_s (score_chunks q_emb (chunks_i (fst (get_index s)))) ranked \<and>
          (\<forall>ys. stable_desc score_s (score_chunks q_emb (chunks_i (fst (get_index s)))) ys \<longrightarrow>
             ys = ranked) \<and>
          fst (retrieve_chunks e question top_k None s) =
            Inr \<lparr>chunks_out = map used_of
                   (take (min (nat top_k) (length (chunks_i (fst (get_index s))))) ranked),
                 all_scores_out = map score_s ranked\<rparr> \<and>
          fst (retrieve e question top_k None s) =
            Inr (map used_of
                   (take (min (nat top_k) (length (chunks_i (fst (get_index16 s))))) ranked)))) \<and>
     (\<forall>r. fst (retrieve_chunks e question top_k None s) = Inr r \<longrightarrow>
        length (chunks_out r) = min (nat top_k) (length (chunks_i (fst (get_index s)))) \<and>
        fst (retrieve_chunks e question top_k None
               (snd (retrieve_chunks e question top_k None s))) = Inr r) \<and>
     (\<forall>r. fst (retrieve e question top_k None s) = Inr r \<longrightarrow>
        length r = min (nat top_k) (length (chunks_i (fst (get_index16 s)))) \<and>
        fst (retrieve e question top_k None (snd (retrieve e question top_k None s))) = Inr r)"
proof -
  obtain index s1 where g: "get_index s = (index, s1)" by (cases "get_index s")
  with assms(2) have ne: "chunks_i index \<noteq> []" by simp
  from g get_index16_chunks [of s] have n16: "chunks_i (fst (get_index16 s)) = chunks_i index"
    by simp
  have run: "fst (retrieve_chunks e question top_k None s) =
      Inr \<lparr>chunks_out = map used_of (take (min (nat top_k) (length (chunks_i index)))
               (sort_reverse score_s (score_chunks q_emb (chunks_i index)))),
           all_scores_out = map score_s (sort_reverse score_s (score_chunks q_emb (chunks_i index)))\<rparr>"
    if q: "fst (embed_text e question s) = Inr q_emb" for q_emb
  proof -
    obtain r1 s2 where em: "embed_text e question s1 = (r1, s2)"
      by (cases "embed_text e question s1")
    with q embed_text_fst [of e question s s1] have "r1 = Inr q_emb" by simp
    with em have "embed_text e question s1 = (Inr q_emb, s2)" by simp
    from retrieve_chunks_Inr [OF g ne this, of top_k None] assms(1)
    show ?thesis
      by (simp add: slice_to_nonneg length_sort_reverse score_chunks_def min_def)
  qed
  have len: "length (chunks_out r) = min (nat top_k) (length (chunks_i index))"
    if r: "fst (retrieve_chunks e question top_k None s) = Inr r" for r
  proof -
    obtain r1 s2 where em: "embed_text e question s1 = (r1, s2)"
      by (cases "embed_text e question s1")
    show ?thesis
    proof (cases r1)
      case (Inl err)
      from retrieve_chunks_Inl [OF g ne em [unfolded Inl], of top_k None] r show ?thesis by simp
    next
      case (Inr q_emb)
      with em embed_text_fst [of e question s s1]
      have "fst (embed_text e question s) = Inr q_emb" by simp
      from run [OF this] r show ?thesis
        by (auto simp: length_sort_reverse score_chunks_def)
    qed
  qed
  show ?thesis
  proof (intro conjI allI impI)
    fix q_emb assume q: "fst (embed_text e question s) = Inr q_emb"
    let ?xs = "score_chunks q_emb (chunks_i (fst (get_index s)))"
    from run [OF q] g
    have "stable_desc score_s ?xs (sort_reverse score_s ?xs) \<and>
          (\<forall>ys. stable_desc score_s ?xs ys \<longrightarrow> ys = sort_reverse score_s ?xs) \<and>
          fst (retrieve_chunks e question top_k None s) =
            Inr \<lparr>chunks_out = map used_of
                   (take (min (nat top_k) (length (chunks_i (fst (get_index s)))))
                      (sort_reverse score_s ?xs)),
                 all_scores_out = map score_s (sort_reverse score_s ?xs)\<rparr>"
      by (simp add: sort_reverse_stable_desc stable_desc_unique)
    moreover from this n16 g
    have "fst (retrieve e question top_k None s) =
            Inr (map used_of
                   (take (min (nat top_k) (length (chunks_i (fst (get_index16 s)))))
                      (sort_reverse score_s ?xs)))"
      by (simp add: retrieve_eq [of e question top_k None s])
    ultimately show "\<exists>ranked.
          stable_desc score_s ?xs ranked \<and>
          (\<forall>ys. stable_desc score_s ?xs ys \<longrightarrow> ys = ranked) \<and>
          fst (retrieve_chunks e question top_k None s) =
            Inr \<lparr>chunks_out = map used_of
                   (take (min (nat top_k) (length (chunks_i (fst (get_index s))))) ranked),
                 all_scores_out = map score_s ranked\<rparr> \<and>
          fst (retrieve e question top_k None s) =
            Inr (map used_of
                   (take (min (nat top_k) (length (chunks_i (fst (get_index16 s))))) ranked))"
      by blast
  next
    fix r assume r: "fst (retrieve_chunks e question top_k None s) = Inr r"
    from len [OF r] g
    show "length (chunks_out r) = min (nat top_k) (length (chunks_i (fst (get_index s))))"
      by simp
    from r show "fst (retrieve_chunks e question top_k None
               (snd (retrieve_chunks e question top_k None s))) = Inr r"
      by (simp add: retrieve_chunks_idem)
  next
    fix r assume r: "fst (retrieve e question top_k None s) = Inr r"
    then obtain r15 where r15: "fst (retrieve_chunks e question top_k None s) = Inr r15"
      "r = chunks_out r15"
      by (auto simp: retrieve_eq [of e question top_k None s] split: sum.splits)
    from len [OF r15(1)] r15(2) n16
    show "length r = min (nat top_k) (length (chunks_i (fst (get_index16 s))))" by simp
    from r show "fst (retrieve e question top_k None (snd (retrieve e question top_k None s)))
       = Inr r"
      by (simp add: retrieve_idem)
  qed
qed

theorem retrieve_top_k_witness:
  "(0::int) \<le> 2 \<and> chunks_i (fst (get_index test_state)) \<noteq> [] \<and>
   fst (embed_text test_env (lit ''q'') test_state) = Inr [1, 0] \<and>
   fst (retrieve_chunks test_env (lit ''q'') 2 None test_state) =
     Inr \<lparr>chunks_out =
            [\<lparr>doc_r = lit ''a.txt'', chunk_index_r = 1, text_r = lit ''beta'', score_r = 1\<rparr>,
             \<lparr>doc_r = lit ''a.txt'', chunk_index_r = 0, text_r = lit ''alpha'', score_r = 3 / 5\<rparr>],
          all_scores_out = [1, 3 / 5, 0]\<rparr> \<and>
   fst (retrieve test_env (lit ''q'') 2 None test_state) =
     Inr [\<lparr>doc_r = lit ''a.txt'', chunk_index_r = 1, text_r = lit ''beta'', score_r = 1\<rparr>,
          \<lparr>doc_r = lit ''a.txt'', chunk_index_r = 0, text_r = lit ''alpha'', score_r = 3 / 5\<rparr>] \<and>
   fst (retrieve_chunks test_env (lit ''q'') 5 None test_state) =
     Inr \<lparr>chunks_out =
            [\<lparr>doc_r = lit ''a.txt'', chunk_index_r = 1, text_r = lit ''beta'', score_r = 1\<rparr>,
             \<lparr>doc_r = lit ''a.txt'', chunk_index_r = 0, text_r = lit ''alpha'', score_r = 3 / 5\<rparr>,
             \<lparr>doc_r = lit ''b.md'', chunk_index_r = 0, text_r = lit ''gamma'', score_r = 0\<rparr>],
          all_scores_out = [1, 3 / 5, 0]\<rparr>"
proof -
  have h: "(0::int) \<le> 2" "chunks_i (fst (get_index test_state)) \<noteq> []"
    by (simp_all add: get_index_def test_data)
  show ?thesis
    using h retrieve_top_k [OF h, of test_env "lit ''q''"]
    by (simp add: retrieval_eval test_data lit_def)
qed

text \<open>
  The claim as it was stated has no bound on \<open>top_k\<close>. The endpoint passes
  \<^verbatim>\<open>int(body.get("top_k", 8))\<close> on, and for \<open>top_k = -1\<close> the slice \<^verbatim>\<open>scored[:-1]\<close> drops
  the last entry only: two chunks come back from an index of three, which is more than
  \<open>top_k\<close> and not the first \<open>min top_k N\<close>.
\<close>

theorem retrieve_negative_top_k_counterexample:
  "fst (retrieve_chunks test_env (lit ''q'') (- 1) None test_state) =
     Inr \<lparr>chunks_out =
            [\<lparr>doc_r = lit ''a.txt'', chunk_index_r = 1, text_r = lit ''beta'', score_r = 1\<rparr>,
             \<lparr>doc_r = lit ''a.txt'', chunk_index_r = 0, text_r = lit ''alpha'', score_r = 3 / 5\<rparr>],
          all_scores_out = [1, 3 / 5, 0]\<rparr> \<and>
   fst (retrieve test_env (lit ''q'') (- 1) None test_state) =
     Inr [\<lparr>doc_r = lit ''a.txt'', chunk_index_r = 1, text_r = lit ''beta'', score_r = 1\<rparr>,
          \<lparr>doc_r = lit ''a.txt'', chunk_index_r = 0, text_r = lit ''alpha'', score_r = 3 / 5\<rparr>] \<and>
   \<not> int (length (chunks_out (projr (fst (retrieve_chunks test_env (lit ''q'') (- 1) None
          test_state))))) \<le> - 1"
  by (simp add: retrieval_eval test_data lit_def)

text \<open>
  C10. From one state and in one environment, day15's \<^verbatim>\<open>retrieve_chunks\<close> and day16's
  \<^verbatim>\<open>retrieve\<close> return the same chunks in the same order, for every question, \<open>top_k\<close>
  and threshold; and when one of them raises, so does the other.
\<close>

theorem retrievers_agree:
  "(\<forall>r15. fst (retrieve_chunks e q k thr s) = Inr r15 \<longrightarrow>
      fst (retrieve e q k thr s) = Inr (chunks_out r15)) \<and>
   (\<forall>r16. fst (retrieve e q k thr s) = Inr r16 \<longrightarrow>
      (\<exists>r15. fst (retrieve_chunks e q k thr s) = Inr r15 \<and> chunks_out r15 = r16)) \<and>
   (\<forall>err. fst (retrieve_chunks e q k thr s) = Inl err \<longrightarrow>
      (\<exists>err'. fst (retrieve e q k thr s) = Inl err'))"
  by (auto simp: retrieve_eq [of e q k thr s] split: sum.splits)

theorem retrievers_agree_witness:
  "fst (retrieve_chunks test_env (lit ''q'') 2 (Some (1 / 2)) test_state) =
     Inr \<lparr>chunks_out =
            [\<lparr>doc_r = lit ''a.txt'', chunk_index_r = 1, text_r = lit ''beta'', score_r = 1\<rparr>,
             \<lparr>doc_r = lit ''a.txt'', chunk_index_r = 0, text_r = lit ''alpha'', score_r = 3 / 5\<rparr>],
          all_scores_out = [1, 3 / 5, 0]\<rparr> \<and>
   fst (retrieve test_env (lit ''q'') 2 (Some (1 / 2)) test_state) =
     Inr [\<lparr>doc_r = lit ''a.txt'', chunk_index_r = 1, text_r = lit ''beta'', score_r = 1\<rparr>,
          \<lparr>doc_r = lit ''a.txt'', chunk_index_r = 0, text_r = lit ''alpha'', score_r = 3 / 5\<rparr>] \<and>
   fst (retrieve_chunks test_env (lit ''bad'') 2 None test_state) = Inl EmbeddingError \<and>
   fst (retrieve test_env (lit ''bad'') 2 None test_state) = Inl ServiceError"
  using retrievers_agree [of test_env "lit ''q''" 2 "Some (1 / 2)" test_state]
  by (simp add: retrieval_eval test_data lit_def)

section \<open>Rebuild: the empty corpus, failures, the document count\<close>

text \<open>
  C6. A walk that meets no file (the empty directory, with or without empty
  directories below it) rebuilds without an error, whatever the environment: the index
  written and cached has no chunk and the document count 0; a retrieval after it returns
  no chunk and sends nothing to the embedding service. More generally a retrieval whose
  index (the cached one, or the loaded one when the cache has no chunk) has no chunk
  returns the empty result, for every question, \<open>top_k\<close> and threshold, and leaves the
  list of embedding requests as it was.
\<close>

theorem empty_index:
  "(concat (map snd docs) = [] \<longrightarrow>
      reindex_endpoint e docs s =
        (Inr \<lparr>doc_count_out = 0, chunk_count_out = 0,
              message_out = lit ''Indexed 0 docs into 0 chunks.''\<rparr>,
         s\<lparr>index_file := Some \<lparr>chunks_i = [], doc_count_i = Some 0\<rparr>,
           RAG_INDEX := \<lparr>chunks_i = [], doc_count_i = Some 0\<rparr>\<rparr>) \<and>
      fst (retrieve_chunks e q k thr (snd (reindex_endpoint e docs s))) =
        Inr \<lparr>chunks_out = [], all_scores_out = []\<rparr> \<and>
      embed_calls (snd (retrieve_chunks e q k thr (snd (reindex_endpoint e docs s)))) =
        embed_calls s) \<and>
   (chunks_i (fst (get_index s)) = [] \<longrightarrow>
      fst (retrieve_chunks e q k thr s) = Inr \<lparr>chunks_out = [], all_scores_out = []\<rparr> \<and>
      embed_calls (snd (retrieve_chunks e q k thr s)) = embed_calls s)"
proof (intro conjI impI)
  assume "chunks_i (fst (get_index s)) = []"
  then obtain index s1 where g: "get_index s = (index, s1)" "chunks_i index = []"
    by (cases "get_index s") auto
  from retrieve_chunks_empty [OF g, of e q k thr] get_index_frame [OF g(1)]
  show "fst (retrieve_chunks e q k thr s) = Inr \<lparr>chunks_out = [], all_scores_out = []\<rparr>"
    "embed_calls (snd (retrieve_chunks e q k thr s)) = embed_calls s"
    by simp_all
next
  assume "concat (map snd docs) = []"
  from walk_docs_no_files [OF this, of "embed_text e" "([], 0, 0)" s]
  have r: "reindex_endpoint e docs s =
        (Inr \<lparr>doc_count_out = 0, chunk_count_out = 0,
              message_out = lit ''Indexed 0 docs into 0 chunks.''\<rparr>,
         s\<lparr>index_file := Some \<lparr>chunks_i = [], doc_count_i = Some 0\<rparr>,
           RAG_INDEX := \<lparr>chunks_i = [], doc_count_i = Some 0\<rparr>\<rparr>)"
    by (simp add: reindex_endpoint_def save_index_def load_index_def str_nat.simps lit_def)
  then show "reindex_endpoint e docs s =
        (Inr \<lparr>doc_count_out = 0, chunk_count_out = 0,
              message_out = lit ''Indexed 0 docs into 0 chunks.''\<rparr>,
         s\<lparr>index_file := Some \<lparr>chunks_i = [], doc_count_i = Some 0\<rparr>,
           RAG_INDEX := \<lparr>chunks_i = [], doc_count_i = Some 0\<rparr>\<rparr>)" .
  let ?s' = "s\<lparr>index_file := Some \<lparr>chunks_i = [], doc_count_i = Some 0\<rparr>,
           RAG_INDEX := \<lparr>chunks_i = [], doc_count_i = Some 0\<rparr>\<rparr>"
  have g: "get_index ?s' = (\<lparr>chunks_i = [], doc_count_i = Some 0\<rparr>, ?s')"
    by (simp add: get_index_def load_index_def)
  from retrieve_chunks_empty [OF g, of e q k thr] r
  show "fst (retrieve_chunks e q k thr (snd (reindex_endpoint e docs s))) =
        Inr \<lparr>chunks_out = [], all_scores_out = []\<rparr>"
    "embed_calls (snd (retrieve_chunks e q k thr (snd (reindex_endpoint e docs s)))) =
        embed_calls s"
    by simp_all
qed

theorem empty_index_witness:
  "concat (map snd [([], []), (lit ''sub'', [])]) = [] \<and>
   chunks_i (fst (get_index fresh_state)) = [] \<and>
   reindex_endpoint test_env [([], []), (lit ''sub'', [])] test_state =
     (Inr \<lparr>doc_count_out = 0, chunk_count_out = 0,
           message_out = lit ''Indexed 0 docs into 0 chunks.''\<rparr>,
      \<lparr>index_file = Some \<lparr>chunks_i = [], doc_count_i = Some 0\<rparr>,
       RAG_INDEX = \<lparr>chunks_i = [], doc_count_i = Some 0\<rparr>, embed_calls = []\<rparr>) \<and>
   retrieve_chunks test_env (lit ''anything'') 8 (Some (35 / 100)) fresh_state =
     (Inr \<lparr>chunks_out = [], all_scores_out = []\<rparr>, fresh_state)"
proof -
  have h: "concat (map snd [([]::pystr, []::(pystr \<times> pystr option) list), (lit ''sub'', [])]) = []"
    "chunks_i (fst (get_index fresh_state)) = []"
    by (simp_all add: get_index_def load_index_def test_data)
  from empty_index [of "[([], []), (lit ''sub'', [])]" test_env test_state "lit ''anything''" 8
      "Some (35 / 100)"] h(1)
  have "reindex_endpoint test_env [([], []), (lit ''sub'', [])] test_state =
     (Inr \<lparr>doc_count_out = 0, chunk_count_out = 0,
           message_out = lit ''Indexed 0 docs into 0 chunks.''\<rparr>,
      \<lparr>index_file = Some \<lparr>chunks_i = [], doc_count_i = Some 0\<rparr>,
       RAG_INDEX = \<lparr>chunks_i = [], doc_count_i = Some 0\<rparr>, embed_calls = []\<rparr>)"
    by (simp add: test_data)
  moreover have "retrieve_chunks test_env (lit ''anything'') 8 (Some (35 / 100)) fresh_state =
     (Inr \<lparr>chunks_out = [], all_scores_out = []\<rparr>, fresh_state)"
    by (simp add: retrieve_chunks_def get_index_def load_index_def test_data)
  ultimately show ?thesis using h by simp
qed

text \<open>
  C7. Whatever makes day15's rebuild raise, the index file and the cached index are
  what they were before. When the embedding of some chunk text of the corpus fails (no
  key, or the service fails on it), the rebuild does raise, and with the embedding's error
  when every document can be read. When the rebuild returns, the file and the cache hold
  the same index, its chunks are the chunk texts of the corpus in order, and every chunk
  carries the normalised vector the service gave for its text.
\<close>

theorem reindex_atomic:
  "(\<forall>err s'. reindex_endpoint e docs s = (Inl err, s') \<longrightarrow>
      index_file s' = index_file s \<and> RAG_INDEX s' = RAG_INDEX s) \<and>
   (\<forall>t. t \<in> set (corpus_texts docs) \<and> (\<not> api_key e \<or> embeddings_create e t = None) \<longrightarrow>
      (\<exists>err s'. reindex_endpoint e docs s = (Inl err, s') \<and>
         ((\<forall>f\<in>set (recognized_files docs). snd f \<noteq> None) \<longrightarrow>
            err = (if api_key e then EmbeddingError else ValueError)))) \<and>
   (\<forall>r s'. reindex_endpoint e docs s = (Inr r, s') \<longrightarrow>
      (\<exists>idx. index_file s' = Some idx \<and> RAG_INDEX s' = idx \<and>
         map text_c (chunks_i idx) = corpus_texts docs \<and>
         (\<forall>c\<in>set (chunks_i idx).
            \<exists>vec. embeddings_create e (text_c c) = Some vec \<and> embedding_c c = l2_normalize vec)))"
proof (intro conjI allI impI)
  fix err s' assume "reindex_endpoint e docs s = (Inl err, s')"
  then have "walk_docs (embed_text e) docs ([], 0, 0) s = (Inl err, s')"
    by (simp add: reindex_endpoint_Inl)
  from walk_docs_frame [of "embed_text e", OF embed_text_frame this]
  show "index_file s' = index_file s" "RAG_INDEX s' = RAG_INDEX s" by simp_all
next
  fix r s' assume "reindex_endpoint e docs s = (Inr r, s')"
  from reindex_endpoint_Inr [OF this] obtain cs d n s1 where
    w: "walk_docs (embed_text e) docs ([], 0, 0) s = (Inr (cs, d, n), s1)"
    and s': "s' = s1\<lparr>index_file := Some \<lparr>chunks_i = cs, doc_count_i = Some d\<rparr>,
              RAG_INDEX := \<lparr>chunks_i = cs, doc_count_i = Some d\<rparr>\<rparr>"
    by blast
  from walk_docs_result [OF w] have "map text_c cs = corpus_texts docs"
    "\<forall>c\<in>set cs. \<exists>s0 s1. embed_text e (text_c c) s0 = (Inr (embedding_c c), s1)" by auto
  then have "map text_c cs = corpus_texts docs"
    "\<forall>c\<in>set cs. \<exists>vec. embeddings_create e (text_c c) = Some vec \<and>
        embedding_c c = l2_normalize vec"
    by (auto dest: embed_text_result)
  with s' show "\<exists>idx. index_file s' = Some idx \<and> RAG_INDEX s' = idx \<and>
         map text_c (chunks_i idx) = corpus_texts docs \<and>
         (\<forall>c\<in>set (chunks_i idx).
            \<exists>vec. embeddings_create e (text_c c) = Some vec \<and> embedding_c c = l2_normalize vec)"
    by simp
next
  fix t assume t: "t \<in> set (corpus_texts docs) \<and> (\<not> api_key e \<or> embeddings_create e t = None)"
  obtain r s' where run: "reindex_endpoint e docs s = (r, s')"
    by (cases "reindex_endpoint e docs s")
  show "\<exists>err s'. reindex_endpoint e docs s = (Inl err, s') \<and>
         ((\<forall>f\<in>set (recognized_files docs). snd f \<noteq> None) \<longrightarrow>
            err = (if api_key e then EmbeddingError else ValueError))"
  proof (cases r)
    case (Inr resp)
    from reindex_endpoint_Inr [OF run [unfolded Inr]] obtain cs d n s1 where
      w: "walk_docs (embed_text e) docs ([], 0, 0) s = (Inr (cs, d, n), s1)" by blast
    from walk_docs_result [OF w] have "map text_c cs = corpus_texts docs"
      "\<forall>c\<in>set cs. \<exists>s0 s1. embed_text e (text_c c) s0 = (Inr (embedding_c c), s1)" by auto
    then have "\<forall>t\<in>set (corpus_texts docs). api_key e \<and> embeddings_create e t \<noteq> None"
      by (metis (no_types, lifting) embed_text_result imageE list.set_map option.distinct(1))
    with t show ?thesis by blast
  next
    case (Inl err)
    with run have "walk_docs (embed_text e) docs ([], 0, 0) s = (Inl err, s')"
      by (simp add: reindex_endpoint_Inl)
    from walk_docs_error [OF this]
    have "(\<forall>f\<in>set (recognized_files docs). snd f \<noteq> None) \<longrightarrow>
            err = (if api_key e then EmbeddingError else ValueError)"
      by (auto dest: embed_text_error)
    with run Inl show ?thesis by blast
  qed
qed

theorem reindex_atomic_witness:
  "lit ''bad'' \<in> set (corpus_texts [([], [(lit ''a.txt'', Some (lit ''good'')),
                                          (lit ''b.md'', Some (lit ''bad\<newline>''))])]) \<and>
   embeddings_create test_env (lit ''bad'') = None \<and>
   reindex_endpoint test_env
     [([], [(lit ''a.txt'', Some (lit ''good'')), (lit ''b.md'', Some (lit ''bad\<newline>''))])]
     test_state =
     (Inl EmbeddingError, test_state\<lparr>embed_calls := [lit ''good'', lit ''bad'']\<rparr>) \<and>
   index_file (snd (reindex_endpoint test_env
     [([], [(lit ''a.txt'', Some (lit ''good'')), (lit ''b.md'', Some (lit ''bad\<newline>''))])]
     test_state)) = Some test_index"
  using reindex_atomic [of test_env
     "[([], [(lit ''a.txt'', Some (lit ''good'')), (lit ''b.md'', Some (lit ''bad\<newline>''))])]"
     test_state]
  by (simp add: index_eval string_eval embed_text_def test_env_def test_state_def)

text \<open>
  C8 (as amended). When a rebuild returns, the document count in the response, in the
  file and in the cache is the number of files with a recognised suffix the walk met,
  whether or not they gave a chunk. The first half is day15's rebuild, the second
  day16's.
\<close>

theorem reindex_doc_count:
  "(reindex_endpoint e docs s = (Inr r, s') \<longrightarrow>
      doc_count_out r = length (recognized_files docs) \<and>
      map_option doc_count_i (index_file s') = Some (Some (length (recognized_files docs))) \<and>
      doc_count_i (RAG_INDEX s') = Some (length (recognized_files docs))) \<and>
   (reindex_endpoint16 e docs s = (Inr r16, s16) \<longrightarrow>
      snd r16 = length (recognized_files docs) \<and>
      map_option doc_count_i (index_file s16) = Some (Some (length (recognized_files docs))) \<and>
      doc_count_i (RAG_INDEX s16) = Some (length (recognized_files docs)))"
proof (intro conjI impI)
  assume "reindex_endpoint e docs s = (Inr r, s')"
  from reindex_endpoint_Inr [OF this] obtain cs d n s1 where
    w: "walk_docs (embed_text e) docs ([], 0, 0) s = (Inr (cs, d, n), s1)"
    and r: "doc_count_out r = d"
    and s': "s' = s1\<lparr>index_file := Some \<lparr>chunks_i = cs, doc_count_i = Some d\<rparr>,
              RAG_INDEX := \<lparr>chunks_i = cs, doc_count_i = Some d\<rparr>\<rparr>"
    by blast
  from walk_docs_result [OF w] have "d = length (recognized_files docs)" by auto
  with r s' show "doc_count_out r = length (recognized_files docs)"
    "map_option doc_count_i (index_file s') = Some (Some (length (recognized_files docs)))"
    "doc_count_i (RAG_INDEX s') = Some (length (recognized_files docs))"
    by simp_all
next
  assume "reindex_endpoint16 e docs s = (Inr r16, s16)"
  from reindex_endpoint16_Inr [OF this] obtain cs d n s1 where
    w: "walk_docs (embed_text16 e) docs ([], 0, 0) s = (Inr (cs, d, n), s1)"
    and r: "r16 = (length cs, d)"
    and s': "s16 = s1\<lparr>index_file := Some \<lparr>chunks_i = cs, doc_count_i = Some d\<rparr>,
              RAG_INDEX := \<lparr>chunks_i = cs, doc_count_i = Some d\<rparr>\<rparr>"
    by blast
  from walk_docs_result [OF w] have "d = length (recognized_files docs)" by auto
  with r s' show "snd r16 = length (recognized_files docs)"
    "map_option doc_count_i (index_file s16) = Some (Some (length (recognized_files docs)))"
    "doc_count_i (RAG_INDEX s16) = Some (length (recognized_files docs))"
    by simp_all
qed

theorem reindex_doc_count_witness:
  "reindex_endpoint test_env
     [([], [(lit ''notes.TXT'', Some (lit ''good'')), (lit ''skip.pdf'', None)]),
      (lit ''sub'', [(lit ''empty.md'', Some (lit '' \<newline>''))])]
     fresh_state =
     (Inr \<lparr>doc_count_out = 2, chunk_count_out = 1,
           message_out = lit ''Indexed 2 docs into 1 chunks.''\<rparr>,
      \<lparr>index_file = Some \<lparr>chunks_i = [\<lparr>id_c = lit ''chunk-0'', doc_c = lit ''notes.TXT'',
           chunk_index_c = 0, text_c = lit ''good'', embedding_c = [1, 0]\<rparr>],
           doc_count_i = Some 2\<rparr>,
       RAG_INDEX = \<lparr>chunks_i = [\<lparr>id_c = lit ''chunk-0'', doc_c = lit ''notes.TXT'',
           chunk_index_c = 0, text_c = lit ''good'', embedding_c = [1, 0]\<rparr>],
           doc_count_i = Some 2\<rparr>,
       embed_calls = [lit ''good'']\<rparr>) \<and>
   length (recognized_files
     [([], [(lit ''notes.TXT'', Some (lit ''good'')), (lit ''skip.pdf'', None)]),
      (lit ''sub'', [(lit ''empty.md'', Some (lit '' \<newline>''))])]) = 2"
  using reindex_doc_count [of test_env
     "[([], [(lit ''notes.TXT'', Some (lit ''good'')), (lit ''skip.pdf'', None)]),
      (lit ''sub'', [(lit ''empty.md'', Some (lit '' \<newline>''))])]" fresh_state]
  by (simp add: index_eval string_eval embed_text_def l2_normalize_def load_index_def
      test_env_def fresh_state_def str_nat.simps)

text \<open>
  The claim as it was stated counts the documents that gave a chunk. The counter is
  incremented before the file is read: one empty \<^verbatim>\<open>.txt\<close> file gives the count 1 and no
  chunk.
\<close>

theorem reindex_doc_count_counterexample:
  "index_file (snd (reindex_endpoint test_env [([], [(lit ''empty.txt'', Some [])])] fresh_state)) =
     Some \<lparr>chunks_i = [], doc_count_i = Some 1\<rparr> \<and>
   doc_count_i (the (index_file (snd (reindex_endpoint test_env
       [([], [(lit ''empty.txt'', Some [])])] fresh_state)))) \<noteq>
     Some (card (doc_c ` set (chunks_i (the (index_file (snd (reindex_endpoint test_env
       [([], [(lit ''empty.txt'', Some [])])] fresh_state)))))))"
  by (simp add: index_eval string_eval load_index_def test_env_def fresh_state_def)

section \<open>The prompt without context\<close>

text \<open>
  C9 (as amended). Without results both prompts are the fixed frame around an empty
  context block: the heading of the context, the blank lines and the question follow
  one another, and nothing says that no context was found.
\<close>

theorem prompt_without_context:
  "context_block [] = [] \<and> context_block16 [] = [] \<and>
   rag_prompt question [] =
     lit ''You are a helpful assistant using RAG.\<newline>You are given CONTEXT extracted from local documents.\<newline>Use it when relevant. If you don't see an answer in the context, say so.\<newline>\<newline>CONTEXT:\<newline>\<newline>\<newline>QUESTION: '' @ question \<and>
   citations_prompt question [] =
     lit ''You are a RAG assistant that MUST ALWAYS cite sources.\<newline>\<newline>RULES:\<newline>- Use citations in the format: [filename#chunk_index] (e.g., [agents_overview.txt#0])\<newline>- Every important fact or claim must include a citation\<newline>- At the end of your answer, include a CITATIONS section listing all sources used\<newline>\<newline>CONTEXT (with chunk IDs):\<newline>\<newline>\<newline>QUESTION: '' @ question @
     lit ''\<newline>\<newline>Provide a detailed answer with inline citations like [filename#chunk_index] throughout your response.\<newline>End with a CITATIONS section listing all sources used.\<newline>''"
  by (simp add: context_block_def context_block16_def rag_prompt_def citations_prompt_def lit_def)

theorem prompt_without_context_witness:
  "rag_prompt (lit ''What is RAG?'') [] =
     lit ''You are a helpful assistant using RAG.\<newline>You are given CONTEXT extracted from local documents.\<newline>Use it when relevant. If you don't see an answer in the context, say so.\<newline>\<newline>CONTEXT:\<newline>\<newline>\<newline>QUESTION: What is RAG?''"
  using prompt_without_context [of "lit ''What is RAG?''"]
  by (simp add: lit_def)

text \<open>
  The claim as it was stated wants a marker in the place of the missing context. The
  context block of no results is the empty string, and the whole prompt is the text
  below.
\<close>

theorem prompt_marker_counterexample:
  "context_block [] = [] \<and>
   rag_prompt (lit ''What is RAG?'') [] =
     lit ''You are a helpful assistant using RAG.\<newline>You are given CONTEXT extracted from local documents.\<newline>Use it when relevant. If you don't see an answer in the context, say so.\<newline>\<newline>CONTEXT:\<newline>\<newline>\<newline>QUESTION: What is RAG?'' \<and>
   context_block16 [] = [] \<and>
   citations_prompt (lit ''What is RAG?'') [] =
     lit ''You are a RAG assistant that MUST ALWAYS cite sources.\<newline>\<newline>RULES:\<newline>- Use citations in the format: [filename#chunk_index] (e.g., [agents_overview.txt#0])\<newline>- Every important fact or claim must include a citation\<newline>- At the end of your answer, include a CITATIONS section listing all sources used\<newline>\<newline>CONTEXT (with chunk IDs):\<newline>\<newline>\<newline>QUESTION: What is RAG?\<newline>\<newline>Provide a detailed answer with inline citations like [filename#chunk_index] throughout your response.\<newline>End with a CITATIONS section listing all sources used.\<newline>''"
  by (simp add: context_block_def context_block16_def rag_prompt_def citations_prompt_def lit_def)

section \<open>The normalisation\<close>

text \<open>Rounding: zero, integers, what underflows, the powers of two.\<close>

lemma fl64_zero: "fl64 0 = Fin 0"
  by (simp add: fl64_def round_half_even_def)

lemma round_half_even_int: "round_half_even (of_int n) = n"
  by (simp add: round_half_even_def)

lemma fl64_underflow:
  assumes "\<bar>x\<bar> < 1 / 2 ^ 1075"
  shows "fl64 x = Fin 0"
proof -
  have small: "\<bar>x\<bar> < 1 / 2 ^ 1022"
  proof -
    have "(1::real) / 2 ^ 1075 \<le> 1 / 2 ^ 1022"
      by (intro divide_left_mono power_increasing) simp_all
    with assms show ?thesis by linarith
  qed
  let ?q = "x / (1 / 2 ^ 1074)"
  have q: "\<bar>?q\<bar> < 1 / 2"
  proof -
    have "\<bar>?q\<bar> = \<bar>x\<bar> * 2 ^ 1074" by (simp add: abs_mult)
    also have "\<dots> < (1 / 2 ^ 1075) * 2 ^ 1074"
      using assms by (intro mult_strict_right_mono) simp_all
    also have "\<dots> = 1 / 2" by (simp add: power_add [symmetric, where n = 1, simplified])
    finally show ?thesis .
  qed
  have "round_half_even ?q = 0"
  proof (cases "0 \<le> ?q")
    case True
    with q have "\<lfloor>?q\<rfloor> = 0" by (intro floor_unique) auto
    with q True show ?thesis by (simp add: round_half_even_def Let_def)
  next
    case False
    with q have f: "\<lfloor>?q\<rfloor> = - 1" by (intro floor_unique) auto
    from q False have "1 / 2 < ?q - of_int (- 1 :: int)" by auto
    with f show ?thesis by (simp add: round_half_even_def Let_def)
  qed
  with small show ?thesis by (simp add: fl64_def Let_def)
qed

lemma fl64_inv_pow2:
  assumes "n \<le> 1022"
  shows "fl64 (1 / 2 ^ n) = Fin (1 / 2 ^ n)"
proof -
  have le: "(2::real) ^ n \<le> 2 ^ 1022" using assms by (intro power_increasing) simp_all
  then have nb: "\<not> \<bar>(1::real) / 2 ^ n\<bar> < 1 / 2 ^ 1022"
    by (simp add: field_simps del: power_numeral)
  have fl: "\<lfloor>log 2 \<bar>(1::real) / 2 ^ n\<bar>\<rfloor> = - int n"
  proof -
    have "log 2 \<bar>(1::real) / 2 ^ n\<bar> = of_int (- int n)"
      by (simp add: log_divide log_nat_power)
    then show ?thesis by (simp only: floor_of_int)
  qed
  have ulp: "(2::real) powi (- int n - 52) = 1 / 2 ^ (n + 52)"
  proof -
    have "- int n - 52 = - int (n + 52)" by simp
    then show ?thesis by (simp only: power_int_minus power_int_of_nat divide_inverse mult_1)
  qed
  have q: "((1::real) / 2 ^ n) / (1 / 2 ^ (n + 52)) = of_int (2 ^ 52)"
    by (simp add: power_add del: power_numeral)
  have y: "of_int (round_half_even (of_int (2 ^ 52))) * ((1::real) / 2 ^ (n + 52)) = 1 / 2 ^ n"
    unfolding round_half_even_int by (simp add: power_add del: power_numeral)
  have pos: "(0::real) < 1 / 2 ^ n" by simp
  have "(1::real) / 2 ^ n \<le> 1" by (simp add: field_simps del: power_numeral)
  then have b1: "\<not> (2::real) ^ 1024 \<le> 1 / 2 ^ n"
    using one_less_power [of "2::real" 1024] by linarith
  have b2: "\<not> (1::real) / 2 ^ n \<le> - (2 ^ 1024)"
    using pos zero_less_power [of "2::real" 1024] by linarith
  show ?thesis
    unfolding fl64_def Let_def if_not_P [OF nb] fl ulp q y if_not_P [OF b1] if_not_P [OF b2] ..
qed

text \<open>
  A vector of floats whose squares all underflow has the computed norm 0, which
  \<^verbatim>\<open>or 1.0\<close> replaces by 1: the vector comes back as it is.
\<close>

lemma foldl_add64_zero:
  "\<forall>x\<in>set xs. x = Fin 0 \<Longrightarrow> foldl add64 (Fin 0) xs = Fin 0"
  by (induction xs) (simp_all add: fl64_zero)

lemma those_map_Some: "those (map (\<lambda>v. Some (f v)) vs) = Some (map f vs)"
  by (induction vs) simp_all

lemma l2_normalize64_tiny:
  assumes "\<forall>v\<in>set vec. fl64 v = Fin v \<and> \<bar>v * v\<bar> < 1 / 2 ^ 1075"
  shows "l2_normalize64 vec = Some (map Fin vec)"
proof -
  from assms have "\<forall>x\<in>set (map (\<lambda>v. fl64 (v * v)) vec). x = Fin 0"
    by (auto intro: fl64_underflow)
  then have s: "foldl add64 (Fin 0) (map (\<lambda>v. fl64 (v * v)) vec) = Fin 0"
    by (rule foldl_add64_zero)
  have "map (\<lambda>v. div64 v (Fin 1)) vec = map (\<lambda>v. Some (Fin v)) vec"
    using assms by simp
  then show ?thesis
    by (simp add: l2_normalize64_def s fl64_zero those_map_Some)
qed

lemma l2_normalize64_underflow:
  "l2_normalize64 [1 / 2 ^ 600, 0] = Some [Fin (1 / 2 ^ 600), Fin 0]"
proof -
  have "\<bar>(1::real) / 2 ^ 600 * (1 / 2 ^ 600)\<bar> < 1 / 2 ^ 1075" by simp
  moreover have "fl64 (1 / 2 ^ 600) = Fin (1 / 2 ^ 600)" by (rule fl64_inv_pow2) simp
  ultimately have "\<forall>v\<in>set [(1::real) / 2 ^ 600, 0]. fl64 v = Fin v \<and> \<bar>v * v\<bar> < 1 / 2 ^ 1075"
    using fl64_zero by (simp del: power_numeral)
  from l2_normalize64_tiny [OF this] show ?thesis by (simp del: power_numeral)
qed

lemma fl64_pow2_overflow:
  assumes "1024 \<le> n"
  shows "fl64 (2 ^ n) = PosInf"
proof -
  have ge: "(2::real) ^ 1024 \<le> 2 ^ n" using assms by (intro power_increasing) simp_all
  have "(1::real) / 2 ^ 1022 \<le> 1" by (simp add: field_simps del: power_numeral)
  also have "(1::real) \<le> 2 ^ n" by simp
  finally have nb: "\<not> \<bar>(2::real) ^ n\<bar> < 1 / 2 ^ 1022" by simp
  have fl: "\<lfloor>log 2 \<bar>(2::real) ^ n\<bar>\<rfloor> = int n"
  proof -
    have "log 2 \<bar>(2::real) ^ n\<bar> = of_int (int n)" by (simp add: log_nat_power)
    then show ?thesis by (simp only: floor_of_int)
  qed
  from assms have n52: "52 \<le> n" by simp
  have ulp: "(2::real) powi (int n - 52) = 2 ^ (n - 52)"
  proof -
    from n52 have "int n - 52 = int (n - 52)" by simp
    then show ?thesis by (simp only: power_int_of_nat)
  qed
  have split: "(2::real) ^ n = 2 ^ 52 * 2 ^ (n - 52)"
    using n52 by (simp add: power_add [symmetric] del: power_numeral)
  have q: "(2::real) ^ n / 2 ^ (n - 52) = of_int (2 ^ 52)"
    unfolding split by (simp del: power_numeral)
  have y: "of_int (round_half_even (of_int (2 ^ 52))) * (2::real) ^ (n - 52) = 2 ^ n"
    unfolding round_half_even_int split by (simp del: power_numeral)
  show ?thesis
    unfolding fl64_def Let_def if_not_P [OF nb] fl ulp q y if_P [OF ge] ..
qed

lemma l2_normalize64_overflow:
  "l2_normalize64 [2 ^ 600, 0] = Some [Fin 0, Fin 0]"
proof -
  have "(2::real) ^ 600 * 2 ^ 600 = 2 ^ 1200" by (simp add: power_add [symmetric] del: power_numeral)
  moreover have "fl64 (2 ^ 1200) = PosInf" by (rule fl64_pow2_overflow) simp
  ultimately have sq: "fl64 (2 ^ 600 * 2 ^ 600) = PosInf" by (simp only:)
  have m: "map (\<lambda>v. fl64 (v * v)) [(2::real) ^ 600, 0] = [PosInf, Fin 0]"
    unfolding list.map sq by (simp only: mult_zero_left fl64_zero)
  have f: "foldl add64 (Fin 0) [PosInf, Fin 0] = PosInf" by simp
  show ?thesis
    unfolding l2_normalize64_def m f by simp
qed

text \<open>
  In exact arithmetic the normalisation does what its docstring says ("Get a unit-norm
  embedding for text", "L2-normalize so cosine = dot"): a vector that is not zero comes
  back with norm 1, and the dot product of two such vectors is their cosine.
\<close>

lemma sum_squares_nonneg: "0 \<le> sum_list (map (\<lambda>v. v * v) (vec :: real list))"
  by (induction vec) simp_all

lemma sum_squares_scaled:
  "sum_list (map (\<lambda>v. v * v) (map (\<lambda>v. v / n) vec)) =
     sum_list (map (\<lambda>v. v * v) vec) / (n * n)" for n :: real
  by (induction vec) (simp_all add: add_divide_distrib)

lemma l2_normalize_unit_norm:
  assumes "sum_list (map (\<lambda>v. v * v) vec) \<noteq> 0"
  shows "sqrt (sum_list (map (\<lambda>v. v * v) (l2_normalize vec))) = 1"
proof -
  let ?S = "sum_list (map (\<lambda>v. v * v) vec)"
  from assms sum_squares_nonneg [of vec] have pos: "0 < ?S" by simp
  then have n: "sqrt ?S \<noteq> 0" by simp
  have "l2_normalize vec = map (\<lambda>v. v / sqrt ?S) vec"
    using n by (simp add: l2_normalize_def Let_def)
  then have "sum_list (map (\<lambda>v. v * v) (l2_normalize vec)) = ?S / (sqrt ?S * sqrt ?S)"
    by (simp only: sum_squares_scaled)
  also have "\<dots> = 1" using pos by simp
  finally show ?thesis by simp
qed

lemma cosine_sim_scaled:
  "cosine_sim (map (\<lambda>v. v / m) a) (map (\<lambda>v. v / n) b) = cosine_sim a b / (m * n)"
  for m n :: real
proof (induction a arbitrary: b)
  case Nil
  then show ?case by (simp add: cosine_sim_def)
next
  case (Cons x a)
  then show ?case
    by (cases b) (simp_all add: cosine_sim_def add_divide_distrib)
qed

lemma cosine_sim_normalized:
  assumes "sum_list (map (\<lambda>v. v * v) a) \<noteq> 0" and "sum_list (map (\<lambda>v. v * v) b) \<noteq> 0"
  shows "cosine_sim (l2_normalize a) (l2_normalize b) =
     cosine_sim a b / (sqrt (sum_list (map (\<lambda>v. v * v) a)) * sqrt (sum_list (map (\<lambda>v. v * v) b)))"
  using assms by (simp add: l2_normalize_def Let_def cosine_sim_scaled)

lemma l2_normalize_axis: "0 < x \<Longrightarrow> l2_normalize [x, 0] = [1, 0]"
  by (simp add: l2_normalize_def Let_def)

text \<open>
  C5. The source divides by the computed norm and takes 1 for a computed norm of 0, so
  the division is always defined; but the returned vector does not always have norm 1.
  For the raw vector (2^(-600), 0), which is not zero, the square 2^(-1200) underflows to 0,
  the computed norm is 0 and the vector comes back unchanged: its norm is 2^(-600), far
  from 1. For (2^(600), 0) the square overflows to infinity and the zero vector comes
  back. In exact arithmetic both would come back as (1, 0).
\<close>

theorem embed_unit_norm_fails:
  "l2_normalize64 [1 / 2 ^ 600, 0] = Some [Fin (1 / 2 ^ 600), Fin 0] \<and>
   sqrt (sum_list (map (\<lambda>v. v * v) [1 / 2 ^ 600, 0])) = 1 / 2 ^ 600 \<and>
   \<not> \<bar>(1::real) / 2 ^ 600 - 1\<bar> \<le> 1 / 10 ^ 6 \<and>
   l2_normalize64 [2 ^ 600, 0] = Some [Fin 0, Fin 0] \<and>
   l2_normalize [1 / 2 ^ 600, 0] = [1, 0]"
proof -
  have "sum_list (map (\<lambda>v. v * v) [(1::real) / 2 ^ 600, 0]) = (1 / 2 ^ 600) * (1 / 2 ^ 600)"
    by (simp del: power_numeral)
  moreover have "sqrt (((1::real) / 2 ^ 600) * (1 / 2 ^ 600)) = 1 / 2 ^ 600"
    unfolding real_sqrt_abs2 by (simp del: power_numeral)
  ultimately have a: "sqrt (sum_list (map (\<lambda>v. v * v) [(1::real) / 2 ^ 600, 0])) = 1 / 2 ^ 600"
    by (simp only:)
  have "(1::real) / 2 ^ 600 \<le> 1 / 2 ^ 1" by (intro divide_left_mono power_increasing) simp_all
  then have b: "\<not> \<bar>(1::real) / 2 ^ 600 - 1\<bar> \<le> 1 / 10 ^ 6" by simp
  have c: "l2_normalize [(1::real) / 2 ^ 600, 0] = [1, 0]"
    by (rule l2_normalize_axis) simp
  from a b c l2_normalize64_underflow l2_normalize64_overflow show ?thesis by blast
qed

end
